theory Spec2Isabelle
  imports Complex_Main
begin

section \<open>Tensors and the library operations the notebook calls\<close>

text \<open>
  The notebook \<^verbatim>\<open>causal_conv.ipynb\<close> is a script over three Python integers
  (\<^verbatim>\<open>input_len\<close>, \<^verbatim>\<open>filter_width\<close>, \<^verbatim>\<open>dilation\<close>) and two tensors (\<^verbatim>\<open>X\<close>, \<^verbatim>\<open>H\<close>).
  Every cell is a pure expression over them, so each cell becomes a function of the
  variables it reads.

  A tensor is its static shape together with its elements in row-major order, which
  is the order \<^verbatim>\<open>tf.reshape\<close> preserves. The element type is any semiring: the
  notebook computes in \<^verbatim>\<open>float32\<close>, and the cells are first given with the arithmetic
  idealised to an exact one (no rounding, no infinities, no NaN). The rounding of
  \<^verbatim>\<open>float32\<close> decides one property, linearity; the cells are given a second time with
  rounded arithmetic for it.

  Python integers are \<^typ>\<open>int\<close>; Python's \<^verbatim>\<open>%\<close> is \<open>mod\<close> on \<^typ>\<open>int\<close> (the
  result has the sign of the divisor) and raises on a zero divisor. A library call
  that raises is a branch \<open>Inl\<close> of the result.
\<close>

datatype error = ZeroDivisionError | InvalidArgument

record 'a tensor =
  shape :: "nat list"
  elems :: "'a list"

type_synonym 'a result = "error + 'a tensor"

definition wf_tensor :: "'a tensor \<Rightarrow> bool" where
  "wf_tensor X = (length (elems X) = prod_list (shape X))"

definition bind_result :: "error + 'a \<Rightarrow> ('a \<Rightarrow> error + 'b) \<Rightarrow> error + 'b" where
  "bind_result r f = (case r of Inl e \<Rightarrow> Inl e | Inr v \<Rightarrow> f v)"

text \<open>Row-major addressing of a rank-3 tensor, and the tensor tabulated from a function
  of its three indices.\<close>

definition idx3 :: "nat \<Rightarrow> nat \<Rightarrow> nat \<Rightarrow> nat \<Rightarrow> nat \<Rightarrow> nat" where
  "idx3 T C b t c = (b * T + t) * C + c"

definition at3 :: "'a tensor \<Rightarrow> nat \<Rightarrow> nat \<Rightarrow> nat \<Rightarrow> 'a" where
  "at3 X b t c = elems X ! idx3 (shape X ! 1) (shape X ! 2) b t c"

definition tabulate3 :: "nat \<Rightarrow> nat \<Rightarrow> nat \<Rightarrow> (nat \<Rightarrow> nat \<Rightarrow> nat \<Rightarrow> 'a) \<Rightarrow> 'a tensor" where
  "tabulate3 B T C f =
     \<lparr>shape = [B, T, C],
      elems = map (\<lambda>n. f (n div (T * C)) (n div C mod T) (n mod C)) [0..<B * T * C]\<rparr>"

text \<open>\<^verbatim>\<open>tf.range(limit, dtype=tf.float32)\<close>: the rank-1 tensor \<open>0, 1, ..., limit - 1\<close>;
  a negative limit is rejected.\<close>

definition tf_range :: "int \<Rightarrow> ('a::semiring_1) result" where
  "tf_range limit =
     (if limit < 0 then Inl InvalidArgument
      else Inr \<lparr>shape = [nat limit], elems = map of_nat [0..<nat limit]\<rparr>)"

text \<open>\<^verbatim>\<open>tf.ones(dims)\<close>.\<close>

definition tf_ones :: "int list \<Rightarrow> ('a::semiring_1) result" where
  "tf_ones dims =
     (if \<exists>d \<in> set dims. d < 0 then Inl InvalidArgument
      else Inr \<lparr>shape = map nat dims, elems = replicate (prod_list (map nat dims)) 1\<rparr>)"

text \<open>\<^verbatim>\<open>tf.reshape(X, dims)\<close>: the elements stay in their row-major order. At most one
  entry of \<open>dims\<close> is \<open>-1\<close>; it is inferred from the number of elements, which must be a
  multiple of the product of the other entries. Without a \<open>-1\<close> the product must be
  the number of elements.\<close>

definition tf_reshape :: "'a tensor \<Rightarrow> int list \<Rightarrow> 'a result" where
  "tf_reshape X dims =
     (let n = length (elems X);
          known = prod_list (map nat (filter (\<lambda>d. d \<noteq> - 1) dims))
      in if (\<exists>d \<in> set dims. d < - 1) \<or> 1 < length (filter (\<lambda>d. d = - 1) dims)
         then Inl InvalidArgument
         else if - 1 \<in> set dims
         then (if known = 0 \<or> n mod known \<noteq> 0 then Inl InvalidArgument
               else Inr \<lparr>shape = map (\<lambda>d. if d = - 1 then n div known else nat d) dims,
                         elems = elems X\<rparr>)
         else (if known \<noteq> n then Inl InvalidArgument
               else Inr \<lparr>shape = map nat dims, elems = elems X\<rparr>))"

text \<open>\<^verbatim>\<open>tf.pad(X, [[0, 0], [front, back], [0, 0]], 'CONSTANT')\<close>: zero time steps in front of
  and behind the time axis of a rank-3 tensor. Negative paddings are rejected.\<close>

definition tf_pad :: "('a::zero) tensor \<Rightarrow> int \<Rightarrow> int \<Rightarrow> 'a result" where
  "tf_pad X front back =
     (case shape X of
        [B, T, C] \<Rightarrow>
          if front < 0 \<or> back < 0 then Inl InvalidArgument
          else Inr (tabulate3 B (nat front + T + nat back) C
                 (\<lambda>b t c. if nat front \<le> t \<and> t < nat front + T
                           then at3 X b (t - nat front) c else 0))
      | _ \<Rightarrow> Inl InvalidArgument)"

text \<open>\<^verbatim>\<open>tf.transpose(X, perm=[1, 0, 2])\<close>: the first two axes of a rank-3 tensor are
  exchanged.\<close>

definition tf_transpose :: "'a tensor \<Rightarrow> 'a result" where
  "tf_transpose X =
     (case shape X of
        [A, B, C] \<Rightarrow> Inr (tabulate3 B A C (\<lambda>j i c. at3 X i j c))
      | _ \<Rightarrow> Inl InvalidArgument)"

text \<open>\<^verbatim>\<open>tf.nn.conv1d(X, H, 1, 'VALID')\<close>, stride 1 and no implicit padding. The signal
  has shape \<open>[batch, time, channels]\<close>, the filter \<open>[width, in_channels, out_channels]\<close>.
  As the library does, each output row is a patch of the signal (the \<open>width\<close>
  consecutive time steps starting at \<open>t\<close>, contiguous in memory) multiplied with the
  filter read as a matrix of \<open>width * in_channels\<close> rows and \<open>out_channels\<close> columns.
  The channel counts must agree. The output length is \<open>time - width + 1\<close>; the
  library's shape inference subtracts the width from the time length first and raises
  when the signal is shorter than the filter. Filters in this development have width
  at least 1; an empty filter is rejected.\<close>

definition dot :: "('a::semiring_0) list \<Rightarrow> 'a list \<Rightarrow> 'a" where
  "dot xs ys = sum_list (map2 (*) xs ys)"

definition patch :: "'a tensor \<Rightarrow> nat \<Rightarrow> nat \<Rightarrow> nat \<Rightarrow> 'a list" where
  "patch X width b t =
     take (width * (shape X ! 2)) (drop (idx3 (shape X ! 1) (shape X ! 2) b t 0) (elems X))"

definition filter_column :: "'a tensor \<Rightarrow> nat \<Rightarrow> 'a list" where
  "filter_column H o' =
     map (\<lambda>i. elems H ! (i * (shape H ! 2) + o')) [0..<(shape H ! 0) * (shape H ! 1)]"

definition tf_nn_conv1d :: "('a::semiring_0) tensor \<Rightarrow> 'a tensor \<Rightarrow> 'a result" where
  "tf_nn_conv1d X H =
     (case (shape X, shape H) of
        ([B, T, C], [W, Cin, Cout]) \<Rightarrow>
          if C \<noteq> Cin \<or> W = 0 \<or> T < W then Inl InvalidArgument
          else Inr (tabulate3 B (T - W + 1) Cout
                 (\<lambda>b t o'. dot (patch X W b t) (filter_column H o')))
      | _ \<Rightarrow> Inl InvalidArgument)"

section \<open>The cells of the notebook\<close>

text \<open>Cell 2: the signal \<^verbatim>\<open>X = tf.reshape(tf.range(input_len), [1, input_len, 1])\<close>.\<close>

definition signal_X :: "int \<Rightarrow> ('a::semiring_1) result" where
  "signal_X input_len =
     bind_result (tf_range input_len) (\<lambda>X. tf_reshape X [1, input_len, 1])"

text \<open>Cell 4: the filter \<^verbatim>\<open>H = tf.ones([filter_width, 1, 1])\<close> and the basic convolution
  \<^verbatim>\<open>Y = tf.nn.conv1d(X, H, 1, 'VALID')\<close>.\<close>

definition filter_H :: "int \<Rightarrow> ('a::semiring_1) result" where
  "filter_H filter_width = tf_ones [filter_width, 1, 1]"

definition basic_conv :: "('a::semiring_0) tensor \<Rightarrow> 'a tensor \<Rightarrow> 'a result" where
  "basic_conv X H = tf_nn_conv1d X H"

text \<open>Cell 6, the non-dilated causal convolution:
  \<^verbatim>\<open>X_pad = tf.pad(X, [[0, 0], [filter_width - 1, 0], [0, 0]], 'CONSTANT')\<close>,
  \<^verbatim>\<open>Y = tf.nn.conv1d(X_pad, H, 1, 'VALID')\<close>.\<close>

definition causal_conv :: "int \<Rightarrow> ('a::semiring_0) tensor \<Rightarrow> 'a tensor \<Rightarrow> 'a result" where
  "causal_conv filter_width X H =
     bind_result (tf_pad X (filter_width - 1) 0) (\<lambda>X_pad. tf_nn_conv1d X_pad H)"

text \<open>Cell 8, first part (``turn our input signal into multiple subsampled signals''):
  \<^verbatim>\<open>padded = tf.pad(X, [[0, 0], [0, (dilation - input_len % dilation) % dilation], [0, 0]])\<close>,
  \<^verbatim>\<open>reshaped = tf.reshape(padded, [-1, dilation, 1])\<close>,
  \<^verbatim>\<open>transposed = tf.transpose(reshaped, perm=[1, 0, 2])\<close>,
  \<^verbatim>\<open>X_pad = tf.reshape(transposed, [dilation, -1, 1])\<close>.\<close>

definition pad_amount :: "int \<Rightarrow> int \<Rightarrow> error + int" where
  "pad_amount input_len dilation =
     (if dilation = 0 then Inl ZeroDivisionError
      else Inr ((dilation - input_len mod dilation) mod dilation))"

definition right_pad :: "int \<Rightarrow> int \<Rightarrow> ('a::zero) tensor \<Rightarrow> 'a result" where
  "right_pad input_len dilation X =
     bind_result (pad_amount input_len dilation) (\<lambda>amount. tf_pad X 0 amount)"

definition subsample :: "int \<Rightarrow> int \<Rightarrow> ('a::zero) tensor \<Rightarrow> 'a result" where
  "subsample input_len dilation X =
     bind_result (right_pad input_len dilation X) (\<lambda>padded.
     bind_result (tf_reshape padded [- 1, dilation, 1]) (\<lambda>reshaped.
     bind_result (tf_transpose reshaped) (\<lambda>transposed.
     tf_reshape transposed [dilation, - 1, 1])))"

text \<open>Cell 8, last part (``undo our subsampling''):
  \<^verbatim>\<open>prepared = tf.reshape(Y, [dilation, -1, 1])\<close>,
  \<^verbatim>\<open>transposed = tf.transpose(prepared, perm=[1, 0, 2])\<close>,
  \<^verbatim>\<open>Y = tf.reshape(transposed, [1, -1, 1])\<close>.\<close>

definition undo_subsampling :: "int \<Rightarrow> 'a tensor \<Rightarrow> 'a result" where
  "undo_subsampling dilation Y =
     bind_result (tf_reshape Y [dilation, - 1, 1]) (\<lambda>prepared.
     bind_result (tf_transpose prepared) (\<lambda>transposed.
     tf_reshape transposed [1, - 1, 1]))"

text \<open>Cell 8 as a whole, the dilated causal convolution: subsample, pad each
  subsampled signal on the left by \<open>filter_width - 1\<close>, convolve, undo the subsampling.
  The cell ends there: nothing is cut off the result.\<close>

definition dilated_causal_conv ::
  "int \<Rightarrow> int \<Rightarrow> int \<Rightarrow> ('a::semiring_0) tensor \<Rightarrow> 'a tensor \<Rightarrow> 'a result" where
  "dilated_causal_conv input_len filter_width dilation X H =
     bind_result (subsample input_len dilation X) (\<lambda>X_pad.
     bind_result (tf_pad X_pad (filter_width - 1) 0) (\<lambda>X_pad.
     bind_result (tf_nn_conv1d X_pad H) (\<lambda>Y.
     undo_subsampling dilation Y)))"

section \<open>Vocabulary of the properties\<close>

text \<open>The three axes of a signal \<open>[batch, time, channels]\<close>.\<close>

definition batch_size :: "'a tensor \<Rightarrow> nat" where
  "batch_size X = shape X ! 0"

definition time_length :: "'a tensor \<Rightarrow> nat" where
  "time_length X = shape X ! 1"

definition channels :: "'a tensor \<Rightarrow> nat" where
  "channels X = shape X ! 2"

text \<open>The reference the dilated causal convolution is compared with. It follows the
  description of a dilated convolution, not the notebook: the filter with \<open>d - 1\<close>
  zeros put between consecutive taps (tap \<open>k\<close> of \<open>H\<close> sits at position \<open>k * d\<close>, the
  width becomes \<open>(filter_width - 1) * d + 1\<close>), applied as an ordinary causal
  convolution (cell 6) to the whole signal.\<close>

definition zero_interleaved :: "nat \<Rightarrow> ('a::zero) tensor \<Rightarrow> 'a tensor" where
  "zero_interleaved d H =
     tabulate3 ((shape H ! 0 - 1) * d + 1) (shape H ! 1) (shape H ! 2)
       (\<lambda>j c o'. if j mod d = 0 then at3 H (j div d) c o' else 0)"

definition sparse_kernel_causal_conv ::
  "int \<Rightarrow> int \<Rightarrow> ('a::semiring_0) tensor \<Rightarrow> 'a tensor \<Rightarrow> 'a result" where
  "sparse_kernel_causal_conv filter_width dilation X H =
     causal_conv ((filter_width - 1) * dilation + 1) X (zero_interleaved (nat dilation) H)"

text \<open>Sum and scalar multiple of signals, element by element, and their extension to
  results: an error on either side is the result.\<close>

definition tensor_add :: "('a::plus) tensor \<Rightarrow> 'a tensor \<Rightarrow> 'a tensor" where
  "tensor_add X Y = \<lparr>shape = shape X, elems = map2 (+) (elems X) (elems Y)\<rparr>"

definition tensor_scale :: "('a::times) \<Rightarrow> 'a tensor \<Rightarrow> 'a tensor" where
  "tensor_scale a X = \<lparr>shape = shape X, elems = map ((*) a) (elems X)\<rparr>"

definition add_result :: "('a::plus) result \<Rightarrow> 'a result \<Rightarrow> 'a result" where
  "add_result r r' =
     (case r of Inl e \<Rightarrow> Inl e
      | Inr A \<Rightarrow> (case r' of Inl e \<Rightarrow> Inl e | Inr B \<Rightarrow> Inr (tensor_add A B)))"

definition scale_result :: "('a::times) \<Rightarrow> 'a result \<Rightarrow> 'a result" where
  "scale_result a r = (case r of Inl e \<Rightarrow> Inl e | Inr A \<Rightarrow> Inr (tensor_scale a A))"

text \<open>Two well-formed signals of one shape; and an operation that is linear on them:
  whether it raises depends on the shape alone, and where it returns, it maps sums to
  sums and scalar multiples to scalar multiples.\<close>

definition same_shape :: "'a tensor \<Rightarrow> 'a tensor \<Rightarrow> bool" where
  "same_shape X Y = (wf_tensor X \<and> wf_tensor Y \<and> shape X = shape Y)"

definition linear_op :: "(('a::semiring_0) tensor \<Rightarrow> 'a result) \<Rightarrow> bool" where
  "linear_op f =
     (\<forall>X Y a. same_shape X Y \<longrightarrow>
        (case f X of
           Inl e \<Rightarrow> f Y = Inl e \<and> f (tensor_add X Y) = Inl e \<and> f (tensor_scale a X) = Inl e
         | Inr A \<Rightarrow> (\<exists>B. f Y = Inr B \<and> same_shape A B
                        \<and> f (tensor_add X Y) = Inr (tensor_add A B)
                        \<and> f (tensor_scale a X) = Inr (tensor_scale a A))))"

section \<open>The cells in single precision\<close>

text \<open>
  The tensors of the notebook have \<^verbatim>\<open>dtype=tf.float32\<close>. A finite \<^verbatim>\<open>float32\<close> value is
  \<open>\<plusminus> q * 2 ^ e\<close> with a significand \<open>q < 2 ^ 24\<close>. The signals considered here have
  whole-number samples, as the notebook's own \<^verbatim>\<open>tf.range\<close> and \<^verbatim>\<open>tf.ones\<close> have, so a
  sample is an \<^typ>\<open>int\<close>. The exact sum or product of two such samples is a whole number
  again, and the \<^verbatim>\<open>float32\<close> sum or product is that number rounded to 24 significant
  bits, to the nearest representable value, a tie going to the even significand. Numbers
  of magnitude \<open>2 ^ 128\<close> and beyond, which the format replaces by infinities, occur in
  none of the statements below.

  \<open>bit_length n\<close> is the number of binary digits of \<open>n > 0\<close>. In \<open>round32\<close> the magnitude
  \<open>m\<close> loses its \<open>e\<close> lowest bits, \<open>e = bit_length m - 24\<close> (none when \<open>m < 2 ^ 24\<close>): \<open>q\<close> is
  what stays, \<open>r\<close> what is cut off, and \<open>q\<close> goes up by one when \<open>r\<close> is beyond the half, or
  at the half with \<open>q\<close> odd.
\<close>

function bit_length :: "int \<Rightarrow> nat" where
  "bit_length n = (if n \<le> 0 then 0 else Suc (bit_length (n div 2)))"
  by pat_completeness auto

termination bit_length
  by (relation "measure nat") auto

declare bit_length.simps [simp del]

definition round32 :: "int \<Rightarrow> int" where
  "round32 z =
     (let m = \<bar>z\<bar>;
          e = bit_length m - 24;
          q = m div 2 ^ e;
          r = m mod 2 ^ e
      in sgn z * ((if 2 ^ e < 2 * r \<or> (2 * r = 2 ^ e \<and> odd q) then q + 1 else q) * 2 ^ e))"

definition add32 :: "int \<Rightarrow> int \<Rightarrow> int" where
  "add32 x y = round32 (x + y)"

definition mul32 :: "int \<Rightarrow> int \<Rightarrow> int" where
  "mul32 x y = round32 (x * y)"

text \<open>The inner product of \<^verbatim>\<open>tf.nn.conv1d\<close> in single precision: every product and every
  partial sum is rounded. The terms are accumulated from left to right; the library may
  accumulate in another order, and what is stated below of \<open>dot32\<close> does not depend on the
  order: the counterexample has two terms, whose sum is the same in either order, and under
  the bound of the theorem no product and no partial sum, in any order, is rounded.\<close>

definition dot32 :: "int list \<Rightarrow> int list \<Rightarrow> int" where
  "dot32 xs ys = foldl (\<lambda>s (x, y). add32 s (mul32 x y)) 0 (zip xs ys)"

definition tf_nn_conv1d_f32 :: "int tensor \<Rightarrow> int tensor \<Rightarrow> int result" where
  "tf_nn_conv1d_f32 X H =
     (case (shape X, shape H) of
        ([B, T, C], [W, Cin, Cout]) \<Rightarrow>
          if C \<noteq> Cin \<or> W = 0 \<or> T < W then Inl InvalidArgument
          else Inr (tabulate3 B (T - W + 1) Cout
                 (\<lambda>b t o'. dot32 (patch X W b t) (filter_column H o')))
      | _ \<Rightarrow> Inl InvalidArgument)"

text \<open>Cells 4, 6 and 8 with this convolution. Padding, reshaping and transposing move
  samples and compute nothing.\<close>

definition basic_conv_f32 :: "int tensor \<Rightarrow> int tensor \<Rightarrow> int result" where
  "basic_conv_f32 X H = tf_nn_conv1d_f32 X H"

definition causal_conv_f32 :: "int \<Rightarrow> int tensor \<Rightarrow> int tensor \<Rightarrow> int result" where
  "causal_conv_f32 filter_width X H =
     bind_result (tf_pad X (filter_width - 1) 0) (\<lambda>X_pad. tf_nn_conv1d_f32 X_pad H)"

definition dilated_causal_conv_f32 ::
  "int \<Rightarrow> int \<Rightarrow> int \<Rightarrow> int tensor \<Rightarrow> int tensor \<Rightarrow> int result" where
  "dilated_causal_conv_f32 input_len filter_width dilation X H =
     bind_result (subsample input_len dilation X) (\<lambda>X_pad.
     bind_result (tf_pad X_pad (filter_width - 1) 0) (\<lambda>X_pad.
     bind_result (tf_nn_conv1d_f32 X_pad H) (\<lambda>Y.
     undo_subsampling dilation Y)))"

text \<open>Sum and scalar multiple of signals in single precision, and the bound on the
  magnitude of the samples of a signal.\<close>

definition tensor_add_f32 :: "int tensor \<Rightarrow> int tensor \<Rightarrow> int tensor" where
  "tensor_add_f32 X Y = \<lparr>shape = shape X, elems = map2 add32 (elems X) (elems Y)\<rparr>"

definition tensor_scale_f32 :: "int \<Rightarrow> int tensor \<Rightarrow> int tensor" where
  "tensor_scale_f32 a X = \<lparr>shape = shape X, elems = map (mul32 a) (elems X)\<rparr>"

definition add_result_f32 :: "int result \<Rightarrow> int result \<Rightarrow> int result" where
  "add_result_f32 r r' =
     (case r of Inl e \<Rightarrow> Inl e
      | Inr A \<Rightarrow> (case r' of Inl e \<Rightarrow> Inl e | Inr B \<Rightarrow> Inr (tensor_add_f32 A B)))"

definition scale_result_f32 :: "int \<Rightarrow> int result \<Rightarrow> int result" where
  "scale_result_f32 a r = (case r of Inl e \<Rightarrow> Inl e | Inr A \<Rightarrow> Inr (tensor_scale_f32 a A))"

definition elems_within :: "int \<Rightarrow> int tensor \<Rightarrow> bool" where
  "elems_within m X = list_all (\<lambda>x. \<bar>x\<bar> \<le> m) (elems X)"

section \<open>Row-major indexing\<close>

lemma idx3_less: "b < B \<Longrightarrow> t < T \<Longrightarrow> c < C \<Longrightarrow> idx3 T C b t c < B * T * C"
proof -
  assume b: "b < B" and t: "t < T" and c: "c < C"
  have "(b * T + t) * C + c < (b * T + t) * C + C" using c by simp
  also have "\<dots> = (b * T + t + 1) * C" by (simp add: algebra_simps)
  also have "\<dots> \<le> (b * T + T) * C" using t by (intro mult_le_mono1) simp
  also have "\<dots> = (b + 1) * T * C" by (simp add: algebra_simps)
  also have "\<dots> \<le> B * T * C" using b by (intro mult_le_mono1) simp
  finally show ?thesis by (simp add: idx3_def)
qed

lemma idx3_mod: "c < C \<Longrightarrow> idx3 T C b t c mod C = c"
  by (simp add: idx3_def)

lemma idx3_div_inner: "c < C \<Longrightarrow> idx3 T C b t c div C = b * T + t"
  by (simp add: idx3_def)

lemma idx3_mid: "t < T \<Longrightarrow> c < C \<Longrightarrow> idx3 T C b t c div C mod T = t"
  by (simp add: idx3_div_inner)

lemma idx3_div: "t < T \<Longrightarrow> c < C \<Longrightarrow> idx3 T C b t c div (T * C) = b"
proof -
  assume t: "t < T" and c: "c < C"
  have "idx3 T C b t c div (T * C) = idx3 T C b t c div C div T"
    by (simp add: div_mult2_eq mult.commute)
  also have "\<dots> = b" using t c by (simp add: idx3_div_inner)
  finally show ?thesis .
qed

lemma shape_tabulate3 [simp]: "shape (tabulate3 B T C f) = [B, T, C]"
  by (simp add: tabulate3_def)

lemma length_tabulate3 [simp]: "length (elems (tabulate3 B T C f)) = B * T * C"
  by (simp add: tabulate3_def)

lemma wf_tabulate3 [simp]: "wf_tensor (tabulate3 B T C f)"
  by (simp add: wf_tensor_def)

lemma nth_tabulate3:
  "n < B * T * C \<Longrightarrow>
   elems (tabulate3 B T C f) ! n = f (n div (T * C)) (n div C mod T) (n mod C)"
  by (simp add: tabulate3_def)

lemma at3_tabulate3:
  "b < B \<Longrightarrow> t < T \<Longrightarrow> c < C \<Longrightarrow> at3 (tabulate3 B T C f) b t c = f b t c"
  by (simp add: at3_def nth_tabulate3 idx3_less idx3_div idx3_mid idx3_mod)

lemma split_index:
  assumes "(n::nat) < B * T * C"
  shows "n div (T * C) < B" and "n div C mod T < T" and "n mod C < C"
proof -
  from assms have T: "0 < T" and C: "0 < C" by (auto intro: Nat.gr0I)
  have "n < B * (T * C)" using assms by (simp add: mult.assoc)
  then show "n div (T * C) < B" by (rule less_mult_imp_div_less)
  show "n div C mod T < T" using T by simp
  show "n mod C < C" using C by simp
qed

lemma tabulate3_cong:
  assumes "\<And>b t c. b < B \<Longrightarrow> t < T \<Longrightarrow> c < C \<Longrightarrow> f b t c = g b t c"
  shows "tabulate3 B T C f = tabulate3 B T C g"
  unfolding tabulate3_def using assms split_index by simp

lemma tensor_eqI:
  fixes X Y :: "'a tensor"
  assumes "shape X = shape Y" and "length (elems X) = length (elems Y)"
    and "\<And>n. n < length (elems Y) \<Longrightarrow> elems X ! n = elems Y ! n"
  shows "X = Y"
  using assms by (simp add: nth_equalityI)

section \<open>The library operations on the shapes the notebook uses\<close>

lemma bind_result_Inr [simp]: "bind_result (Inr v) f = f v"
  by (simp add: bind_result_def)

lemma bind_result_Inl [simp]: "bind_result (Inl e) f = Inl e"
  by (simp add: bind_result_def)

lemma tf_reshape_first:
  assumes "0 < D" and "length (elems X) mod D = 0"
  shows "tf_reshape X [- 1, int D, 1] =
         Inr \<lparr>shape = [length (elems X) div D, D, 1], elems = elems X\<rparr>"
  using assms by (simp add: tf_reshape_def)

lemma tf_reshape_mid:
  assumes "0 < D" and "length (elems X) mod D = 0"
  shows "tf_reshape X [int D, - 1, 1] =
         Inr \<lparr>shape = [D, length (elems X) div D, 1], elems = elems X\<rparr>"
  using assms by (simp add: tf_reshape_def)

lemma tf_reshape_row:
  "tf_reshape X [1, - 1, 1] = Inr \<lparr>shape = [1, length (elems X), 1], elems = elems X\<rparr>"
  by (simp add: tf_reshape_def)

lemma tf_pad_nat:
  assumes "shape X = [B, T, C]"
  shows "tf_pad X (int a) (int z) =
         Inr (tabulate3 B (a + T + z) C
               (\<lambda>b t c. if a \<le> t \<and> t < a + T then at3 X b (t - a) c else 0))"
  using assms by (simp add: tf_pad_def cong: if_cong)

lemma tf_transpose_shape3:
  assumes "shape X = [A, B, C]"
  shows "tf_transpose X = Inr (tabulate3 B A C (\<lambda>j i c. at3 X i j c))"
  using assms by (simp add: tf_transpose_def)

lemma tf_nn_conv1d_shape3:
  assumes "shape X = [B, T, C]" and "shape H = [W, C, Cout]" and "0 < W" and "W \<le> T"
  shows "tf_nn_conv1d X H =
         Inr (tabulate3 B (T + 1 - W) Cout (\<lambda>b t o'. dot (patch X W b t) (filter_column H o')))"
proof -
  have "T - W + 1 = T + 1 - W" using assms(4) by simp
  then show ?thesis using assms by (simp add: tf_nn_conv1d_def)
qed

lemma dot_sum:
  assumes "length xs = n" and "length ys = n"
  shows "dot xs ys = (\<Sum>i<n. xs ! i * ys ! i)"
proof -
  have "dot xs ys = (\<Sum>i = 0..<length (map2 (*) xs ys). map2 (*) xs ys ! i)"
    unfolding dot_def by (rule sum_list_sum_nth)
  also have "\<dots> = (\<Sum>i = 0..<n. xs ! i * ys ! i)"
    using assms by (intro sum.cong) auto
  finally show ?thesis by (simp add: atLeast0LessThan)
qed

lemma patch_nth:
  assumes "shape X = [B, T, C]" and "wf_tensor X" and "b < B" and "t + W \<le> T"
  shows "length (patch X W b t) = W * C"
    and "i < W * C \<Longrightarrow> patch X W b t ! i = elems X ! (idx3 T C b t 0 + i)"
proof -
  have len: "length (elems X) = B * T * C"
    using assms(1,2) by (simp add: wf_tensor_def)
  have "idx3 T C b t 0 + W * C = (b * T + (t + W)) * C"
    by (simp add: idx3_def algebra_simps)
  also have "\<dots> \<le> (b * T + T) * C"
    using assms(4) by (intro mult_le_mono1) simp
  also have "\<dots> = (b + 1) * T * C" by (simp add: algebra_simps)
  also have "\<dots> \<le> B * T * C"
    using assms(3) by (intro mult_le_mono1) simp
  finally have bound: "idx3 T C b t 0 + W * C \<le> length (elems X)"
    using len by simp
  show "length (patch X W b t) = W * C"
    using bound assms(1) by (simp add: patch_def)
  show "i < W * C \<Longrightarrow> patch X W b t ! i = elems X ! (idx3 T C b t 0 + i)"
    using bound assms(1) by (simp add: patch_def)
qed

lemma sum_rows:
  fixes g :: "nat \<Rightarrow> 'a::comm_monoid_add"
  shows "(\<Sum>i<W * C. g i) = (\<Sum>k<W. \<Sum>c<C. g (k * C + c))"
proof -
  have inner: "(\<Sum>c<C. g (k * C + c)) = sum g {k * C..<k * C + C}" for k
  proof -
    have "sum g {0 + k * C..<C + k * C} = (\<Sum>c = 0..<C. g (c + k * C))"
      by (rule sum.shift_bounds_nat_ivl)
    then show ?thesis
      by (simp add: atLeast0LessThan add.commute)
  qed
  have "(\<Sum>k<W. \<Sum>c<C. g (k * C + c)) = (\<Sum>k<W. sum g {k * C..<k * C + C})"
    by (simp add: inner)
  also have "\<dots> = sum g {..<W * C}" by (rule sum.nat_group)
  finally show ?thesis by simp
qed

lemma conv1d_at_flat:
  assumes "shape X = [B, T, C]" and "wf_tensor X" and "shape H = [W, C, Cout]"
    and "0 < W" and "W \<le> T + 1" and "b < B" and "t < T + 1 - W" and "o' < Cout"
  shows "at3 (tabulate3 B (T + 1 - W) Cout (\<lambda>b t o'. dot (patch X W b t) (filter_column H o'))) b t o' =
         (\<Sum>i<W * C. elems X ! (idx3 T C b t 0 + i) * elems H ! (i * Cout + o'))"
proof -
  have tW: "t + W \<le> T" using assms(4,5,7) by simp
  have "dot (patch X W b t) (filter_column H o') =
        (\<Sum>i<W * C. patch X W b t ! i * filter_column H o' ! i)"
    using patch_nth(1)[OF assms(1,2,6) tW] assms(3)
    by (intro dot_sum) (simp_all add: filter_column_def)
  also have "\<dots> = (\<Sum>i<W * C. elems X ! (idx3 T C b t 0 + i) * elems H ! (i * Cout + o'))"
    using patch_nth(2)[OF assms(1,2,6) tW] assms(3)
    by (intro sum.cong refl) (simp add: filter_column_def)
  finally show ?thesis using assms(6,7,8) by (simp add: at3_tabulate3)
qed

lemma conv1d_at:
  assumes "shape X = [B, T, C]" and "wf_tensor X" and "shape H = [W, C, Cout]"
    and "0 < W" and "W \<le> T + 1" and "b < B" and "t < T + 1 - W" and "o' < Cout"
  shows "at3 (tabulate3 B (T + 1 - W) Cout (\<lambda>b t o'. dot (patch X W b t) (filter_column H o'))) b t o' =
         (\<Sum>k<W. \<Sum>c<C. at3 X b (t + k) c * at3 H k c o')"
proof -
  have "(\<Sum>i<W * C. elems X ! (idx3 T C b t 0 + i) * elems H ! (i * Cout + o')) =
        (\<Sum>k<W. \<Sum>c<C. elems X ! (idx3 T C b t 0 + (k * C + c)) * elems H ! ((k * C + c) * Cout + o'))"
    by (rule sum_rows)
  also have "\<dots> = (\<Sum>k<W. \<Sum>c<C. at3 X b (t + k) c * at3 H k c o')"
    using assms(1,3) by (simp add: at3_def idx3_def algebra_simps)
  finally show ?thesis using conv1d_at_flat[OF assms] by simp
qed

section \<open>The subsampling and its inverse, element by element\<close>

lemma pad_amount_nat:
  assumes "0 < D"
  shows "pad_amount (int T) (int D) = Inr (int ((D - T mod D) mod D))"
proof -
  have "T mod D \<le> D" using assms by (simp add: less_imp_le)
  then have "int D - int T mod int D = int (D - T mod D)"
    by (simp add: of_nat_diff zmod_int)
  then show ?thesis using assms by (simp add: pad_amount_def zmod_int)
qed

lemma padded_length_multiple:
  fixes D T :: nat
  assumes "0 < D"
  shows "(T + (D - T mod D) mod D) mod D = 0"
proof (cases "T mod D = 0")
  case True
  have "(T + (D - 0) mod D) mod D = T mod D" by simp
  with True show ?thesis by simp
next
  case False
  then have "(D - T mod D) mod D = D - T mod D" using assms by simp
  moreover have "(T + (D - T mod D)) mod D = (T mod D + (D - T mod D)) mod D"
    by (simp add: mod_add_left_eq)
  moreover have "T mod D + (D - T mod D) = D"
    using assms by (simp add: less_imp_le)
  ultimately show ?thesis by simp
qed

lemma right_pad_nat:
  assumes "shape X = [B, T, C]" and "0 < D"
  shows "right_pad (int T) (int D) X =
         Inr (tabulate3 B (T + (D - T mod D) mod D) C (\<lambda>b t c. if t < T then at3 X b t c else 0))"
  using tf_pad_nat[OF assms(1), of 0 "(D - T mod D) mod D"] assms(2)
  by (simp add: right_pad_def pad_amount_nat cong: if_cong)

lemma decimate_flat:
  assumes "0 < D" and "length (elems P) = D * M"
  shows "bind_result (tf_reshape P [- 1, int D, 1]) (\<lambda>reshaped.
         bind_result (tf_transpose reshaped) (\<lambda>transposed.
         tf_reshape transposed [int D, - 1, 1])) =
         Inr (tabulate3 D M 1 (\<lambda>s p c. elems P ! (p * D + s)))"
proof -
  let ?R = "\<lparr>shape = [M, D, 1], elems = elems P\<rparr>"
  let ?S = "tabulate3 D M 1 (\<lambda>j i c. at3 ?R i j c)"
  have r: "tf_reshape P [- 1, int D, 1] = Inr ?R"
    using assms by (simp add: tf_reshape_first)
  have t: "tf_transpose ?R = Inr ?S"
    by (simp add: tf_transpose_shape3)
  have s1: "tf_reshape ?S [int D, - 1, 1] = Inr \<lparr>shape = [D, M, 1], elems = elems ?S\<rparr>"
    using assms(1) by (simp add: tf_reshape_mid)
  have s2: "\<lparr>shape = [D, M, 1], elems = elems ?S\<rparr> = ?S"
    by (simp add: tabulate3_def)
  have s3: "?S = tabulate3 D M 1 (\<lambda>s p c. elems P ! (p * D + s))"
    by (rule tabulate3_cong) (simp add: at3_def idx3_def)
  have "tf_reshape ?S [int D, - 1, 1] = Inr ?S"
    using s1 s2 by simp
  then show ?thesis
    unfolding r t bind_result_Inr using s3 by simp
qed

lemma subsample_nat:
  assumes "shape X = [B, T, C]" and "0 < D"
  defines "L \<equiv> T + (D - T mod D) mod D"
  defines "P \<equiv> tabulate3 B L C (\<lambda>b t c. if t < T then at3 X b t c else 0)"
  shows "subsample (int T) (int D) X =
         Inr (tabulate3 D (B * L * C div D) 1 (\<lambda>s p c. elems P ! (p * D + s)))"
proof -
  have "L mod D = 0" unfolding L_def using assms(2) by (rule padded_length_multiple)
  then have "D dvd B * L * C" by (simp add: mod_eq_0_iff_dvd)
  then have len: "length (elems P) = D * (B * L * C div D)"
    by (simp add: P_def)
  have "right_pad (int T) (int D) X = Inr P"
    unfolding P_def L_def using assms(1,2) by (rule right_pad_nat)
  then show ?thesis
    using decimate_flat[OF assms(2) len] by (simp add: subsample_def)
qed

lemma undo_subsampling_nat:
  assumes "0 < D" and "length (elems Y) = D * K"
  shows "undo_subsampling (int D) Y =
         Inr (tabulate3 1 (K * D) 1 (\<lambda>b g c. elems Y ! (g mod D * K + g div D)))"
proof -
  let ?R = "\<lparr>shape = [D, K, 1], elems = elems Y\<rparr>"
  let ?S = "tabulate3 K D 1 (\<lambda>j i c. at3 ?R i j c)"
  let ?Z = "\<lparr>shape = [1, length (elems ?S), 1], elems = elems ?S\<rparr>"
  have r: "tf_reshape Y [int D, - 1, 1] = Inr ?R"
    using assms by (simp add: tf_reshape_mid)
  have t: "tf_transpose ?R = Inr ?S"
    by (simp add: tf_transpose_shape3)
  have z: "tf_reshape ?S [1, - 1, 1] = Inr ?Z"
    by (rule tf_reshape_row)
  have "?Z = tabulate3 1 (K * D) 1 (\<lambda>b g c. elems Y ! (g mod D * K + g div D))"
  proof (rule tensor_eqI)
    fix n
    assume "n < length (elems (tabulate3 1 (K * D) 1 (\<lambda>b g c. elems Y ! (g mod D * K + g div D))))"
    then have n: "n < K * D" by simp
    then show "elems ?Z ! n =
               elems (tabulate3 1 (K * D) 1 (\<lambda>b g c. elems Y ! (g mod D * K + g div D))) ! n"
      by (simp add: nth_tabulate3 at3_def idx3_def)
  qed simp_all
  then show ?thesis by (simp only: undo_subsampling_def r t z bind_result_Inr)
qed

section \<open>The dilated causal convolution, element by element\<close>

lemma padded_stream_conv:
  fixes P :: "('a::semiring_0) list"
  assumes "shape H = [W, 1, Cout]" and "0 < W" and "s < D" and "p < M" and "o' < Cout"
  defines "S \<equiv> tabulate3 D M 1 (\<lambda>s p c. P ! (p * D + s))"
  defines "Sp \<equiv> tabulate3 D (W - 1 + M + 0) 1
                  (\<lambda>b t c. if W - 1 \<le> t \<and> t < W - 1 + M then at3 S b (t - (W - 1)) c else 0)"
  shows "at3 (tabulate3 D (W - 1 + M + 0 + 1 - W) Cout
               (\<lambda>b t o'. dot (patch Sp W b t) (filter_column H o'))) s p o' =
         (\<Sum>k<W. (if W - 1 \<le> p + k then P ! ((p + k - (W - 1)) * D + s) else 0)
                 * elems H ! (k * Cout + o'))"
proof -
  have shp: "shape Sp = [D, W - 1 + M + 0, 1]" and wf: "wf_tensor Sp"
    by (simp_all add: Sp_def)
  have "at3 (tabulate3 D (W - 1 + M + 0 + 1 - W) Cout
               (\<lambda>b t o'. dot (patch Sp W b t) (filter_column H o'))) s p o' =
        (\<Sum>k<W. \<Sum>c<1. at3 Sp s (p + k) c * at3 H k c o')"
    using assms(2,3,4,5) by (intro conv1d_at[OF shp wf assms(1)]) simp_all
  also have "\<dots> = (\<Sum>k<W. at3 Sp s (p + k) 0 * at3 H k 0 o')"
    by simp
  also have "\<dots> = (\<Sum>k<W. (if W - 1 \<le> p + k then P ! ((p + k - (W - 1)) * D + s) else 0)
                 * elems H ! (k * Cout + o'))"
  proof (intro sum.cong refl)
    fix k assume "k \<in> {..<W}"
    then have k: "k < W" by simp
    have in_range: "p + k < W - 1 + M + 0" using k assms(4) by simp
    have "at3 Sp s (p + k) 0 =
          (if W - 1 \<le> p + k then at3 S s (p + k - (W - 1)) 0 else 0)"
      unfolding Sp_def using in_range assms(3) by (simp add: at3_tabulate3)
    also have "\<dots> = (if W - 1 \<le> p + k then P ! ((p + k - (W - 1)) * D + s) else 0)"
    proof (cases "W - 1 \<le> p + k")
      case True
      then have "p + k - (W - 1) < M" using in_range by simp
      then show ?thesis unfolding S_def using assms(3) True by (simp add: at3_tabulate3)
    next
      case False
      then show ?thesis by simp
    qed
    finally have a: "at3 Sp s (p + k) 0 =
          (if W - 1 \<le> p + k then P ! ((p + k - (W - 1)) * D + s) else 0)" .
    have b: "at3 H k 0 o' = elems H ! (k * Cout + o')"
      using assms(1) by (simp add: at3_def idx3_def)
    show "at3 Sp s (p + k) 0 * at3 H k 0 o' =
          (if W - 1 \<le> p + k then P ! ((p + k - (W - 1)) * D + s) else 0) * elems H ! (k * Cout + o')"
      by (simp only: a b)
  qed
  finally show ?thesis .
qed

lemma idx3_split: "idx3 M C s p c = s * (M * C) + (p * C + c)"
  by (simp add: idx3_def add_mult_distrib mult.assoc)

lemma dilated_causal_conv_nat:
  fixes X H :: "('a::semiring_0) tensor"
  assumes "shape X = [B, T, C]" and "shape H = [W, 1, Cout]" and "0 < W" and "0 < D"
    and "0 < B" and "0 < T" and "0 < C"
  defines "L \<equiv> T + (D - T mod D) mod D"
  defines "P \<equiv> tabulate3 B L C (\<lambda>b t c. if t < T then at3 X b t c else 0)"
  defines "M \<equiv> B * L * C div D"
  shows "dilated_causal_conv (int T) (int W) (int D) X H =
         Inr (tabulate3 1 (M * Cout * D) 1
               (\<lambda>b g c. \<Sum>k<W.
                  (if W - 1 \<le> g div D div Cout + k
                   then elems P ! ((g div D div Cout + k - (W - 1)) * D + g mod D) else 0)
                  * elems H ! (k * Cout + g div D mod Cout)))"
proof -
  define S where "S = tabulate3 D M 1 (\<lambda>s p c. elems P ! (p * D + s))"
  define Sp where "Sp = tabulate3 D (W - 1 + M + 0) 1
     (\<lambda>b t c. if W - 1 \<le> t \<and> t < W - 1 + M then at3 S b (t - (W - 1)) c else 0)"
  define Yc where "Yc = tabulate3 D (W - 1 + M + 0 + 1 - W) Cout
     (\<lambda>b t o'. dot (patch Sp W b t) (filter_column H o'))"
  have s1: "subsample (int T) (int D) X = Inr S"
    unfolding S_def M_def P_def L_def using assms(1,4) by (rule subsample_nat)
  have e: "int (W - 1) = int W - 1" using assms(3) by (simp add: of_nat_diff)
  have "tf_pad S (int (W - 1)) (int 0) = Inr Sp"
    unfolding Sp_def by (rule tf_pad_nat) (simp add: S_def)
  then have s2: "tf_pad S (int W - 1) 0 = Inr Sp"
    unfolding e of_nat_0 .
  have "L mod D = 0" unfolding L_def using assms(4) by (rule padded_length_multiple)
  moreover have "0 < L" using assms(6) by (simp add: L_def)
  ultimately have "D \<le> L" by (simp add: mod_eq_0_iff_dvd dvd_imp_le)
  also have "L \<le> B * L * C" using assms(5,7) by simp
  finally have M: "0 < M" using assms(4) by (simp add: M_def div_greater_zero_iff)
  have s3: "tf_nn_conv1d Sp H = Inr Yc"
    unfolding Yc_def using assms(2,3) M
    by (intro tf_nn_conv1d_shape3) (simp_all add: Sp_def)
  have len: "length (elems Yc) = D * (M * Cout)"
    using assms(3) by (simp add: Yc_def)
  have s4: "undo_subsampling (int D) Yc =
            Inr (tabulate3 1 (M * Cout * D) 1 (\<lambda>b g c. elems Yc ! (g mod D * (M * Cout) + g div D)))"
    using assms(4) len by (rule undo_subsampling_nat)
  have s5: "tabulate3 1 (M * Cout * D) 1 (\<lambda>b g c. elems Yc ! (g mod D * (M * Cout) + g div D)) =
        tabulate3 1 (M * Cout * D) 1
               (\<lambda>b g c. \<Sum>k<W.
                  (if W - 1 \<le> g div D div Cout + k
                   then elems P ! ((g div D div Cout + k - (W - 1)) * D + g mod D) else 0)
                  * elems H ! (k * Cout + g div D mod Cout))"
  proof (rule tabulate3_cong)
    fix b g c :: nat
    assume g: "g < M * Cout * D"
    then have Cout: "0 < Cout" by (auto intro: Nat.gr0I)
    have s: "g mod D < D" using assms(4) by simp
    have q: "g div D < M * Cout" using g by (simp add: less_mult_imp_div_less)
    then have "g div D < Cout * M" by (simp add: mult.commute)
    then have p: "g div D div Cout < M"
      by (simp add: less_mult_imp_div_less mult.commute)
    have o': "g div D mod Cout < Cout" using Cout by simp
    have M': "W - 1 + M + 0 + 1 - W = M" using assms(3) by simp
    have "g div D = g div D div Cout * Cout + g div D mod Cout"
      by simp
    then have "g mod D * (M * Cout) + g div D =
          idx3 M Cout (g mod D) (g div D div Cout) (g div D mod Cout)"
      by (simp only: idx3_split)
    moreover have "shape Yc = [D, M, Cout]"
      unfolding Yc_def M' by simp
    ultimately have "elems Yc ! (g mod D * (M * Cout) + g div D) =
          at3 Yc (g mod D) (g div D div Cout) (g div D mod Cout)"
      by (simp only: at3_def nth_Cons_0 nth_Cons_Suc One_nat_def numeral_2_eq_2)
    also have "\<dots> = (\<Sum>k<W.
                  (if W - 1 \<le> g div D div Cout + k
                   then elems P ! ((g div D div Cout + k - (W - 1)) * D + g mod D) else 0)
                  * elems H ! (k * Cout + g div D mod Cout))"
      unfolding Yc_def Sp_def S_def
      using assms(2,3) s p o' by (rule padded_stream_conv)
    finally show "elems Yc ! (g mod D * (M * Cout) + g div D) = (\<Sum>k<W.
                  (if W - 1 \<le> g div D div Cout + k
                   then elems P ! ((g div D div Cout + k - (W - 1)) * D + g mod D) else 0)
                  * elems H ! (k * Cout + g div D mod Cout))" .
  qed
  show ?thesis
    unfolding dilated_causal_conv_def s1 bind_result_Inr s2 s3 s4 s5 ..
qed

lemma causal_conv_nat:
  fixes X H :: "('a::semiring_0) tensor"
  assumes "shape X = [B, T, C]" and "shape H = [W, C, Cout]" and "0 < W" and "0 < T"
  shows "causal_conv (int W) X H =
         Inr (tabulate3 B T Cout
               (\<lambda>b t o'. \<Sum>k<W. \<Sum>c<C.
                  (if W - 1 \<le> t + k then at3 X b (t + k - (W - 1)) c else 0) * at3 H k c o'))"
proof -
  define Xp where "Xp = tabulate3 B (W - 1 + T + 0) C
     (\<lambda>b t c. if W - 1 \<le> t \<and> t < W - 1 + T then at3 X b (t - (W - 1)) c else 0)"
  have e: "int (W - 1) = int W - 1" using assms(3) by (simp add: of_nat_diff)
  have T': "W - 1 + T + 0 + 1 - W = T" using assms(3) by simp
  have "tf_pad X (int (W - 1)) (int 0) = Inr Xp"
    unfolding Xp_def using assms(1) by (rule tf_pad_nat)
  then have s1: "tf_pad X (int W - 1) 0 = Inr Xp"
    unfolding e of_nat_0 .
  have shp: "shape Xp = [B, W - 1 + T + 0, C]" and wf: "wf_tensor Xp"
    by (simp_all add: Xp_def)
  have "tf_nn_conv1d Xp H =
        Inr (tabulate3 B (W - 1 + T + 0 + 1 - W) Cout (\<lambda>b t o'. dot (patch Xp W b t) (filter_column H o')))"
    using shp assms(2,3) by (rule tf_nn_conv1d_shape3) (use assms(3,4) in simp)
  then have s2: "tf_nn_conv1d Xp H =
        Inr (tabulate3 B T Cout (\<lambda>b t o'. dot (patch Xp W b t) (filter_column H o')))"
    unfolding T' .
  have s3: "tabulate3 B T Cout (\<lambda>b t o'. dot (patch Xp W b t) (filter_column H o')) =
        tabulate3 B T Cout
               (\<lambda>b t o'. \<Sum>k<W. \<Sum>c<C.
                  (if W - 1 \<le> t + k then at3 X b (t + k - (W - 1)) c else 0) * at3 H k c o')"
  proof (rule tabulate3_cong)
    fix b t o' assume b: "b < B" and t: "t < T" and o': "o' < Cout"
    have "dot (patch Xp W b t) (filter_column H o') =
          at3 (tabulate3 B (W - 1 + T + 0 + 1 - W) Cout
                (\<lambda>b t o'. dot (patch Xp W b t) (filter_column H o'))) b t o'"
      using b t o' by (simp add: at3_tabulate3 T')
    also have "\<dots> = (\<Sum>k<W. \<Sum>c<C. at3 Xp b (t + k) c * at3 H k c o')"
      using shp wf assms(2,3) _ b _ o' by (rule conv1d_at) (use t assms(3) in simp_all)
    also have "\<dots> = (\<Sum>k<W. \<Sum>c<C.
                  (if W - 1 \<le> t + k then at3 X b (t + k - (W - 1)) c else 0) * at3 H k c o')"
    proof (intro sum.cong refl)
      fix k c assume "k \<in> {..<W}" and "c \<in> {..<C}"
      then have "t + k < W - 1 + T + 0" and "c < C" using t by simp_all
      then have "at3 Xp b (t + k) c = (if W - 1 \<le> t + k then at3 X b (t + k - (W - 1)) c else 0)"
        unfolding Xp_def using b by (simp add: at3_tabulate3)
      then show "at3 Xp b (t + k) c * at3 H k c o' =
            (if W - 1 \<le> t + k then at3 X b (t + k - (W - 1)) c else 0) * at3 H k c o'"
        by simp
    qed
    finally show "dot (patch Xp W b t) (filter_column H o') = (\<Sum>k<W. \<Sum>c<C.
                  (if W - 1 \<le> t + k then at3 X b (t + k - (W - 1)) c else 0) * at3 H k c o')" .
  qed
  show ?thesis
    unfolding causal_conv_def s1 bind_result_Inr s2 s3 ..
qed

section \<open>The literal scenarios of the notebook\<close>

text \<open>
  Claim C8. On the signal \<open>[0, 1, 2, 3, 4, 5, 6, 7]\<close> of cell 2 and the all-ones filter of
  width 3 of cell 4, the non-dilated causal convolution of cell 6 returns
  \<open>[0, 1, 3, 6, 9, 12, 15, 18]\<close> (and so does cell 8 at dilation 1), and the dilated causal
  convolution of cell 8 at dilation 2 returns \<open>[0, 1, 2, 4, 6, 9, 12, 15]\<close>.
\<close>

theorem literal_scenarios:
  "signal_X 8 = Inr \<lparr>shape = [1, 8, 1], elems = [0, 1, 2, 3, 4, 5, 6, 7 :: real]\<rparr>
   \<and> filter_H 3 = Inr \<lparr>shape = [3, 1, 1], elems = [1, 1, 1 :: real]\<rparr>
   \<and> causal_conv 3 \<lparr>shape = [1, 8, 1], elems = [0, 1, 2, 3, 4, 5, 6, 7 :: real]\<rparr>
         \<lparr>shape = [3, 1, 1], elems = [1, 1, 1]\<rparr>
       = Inr \<lparr>shape = [1, 8, 1], elems = [0, 1, 3, 6, 9, 12, 15, 18]\<rparr>
   \<and> dilated_causal_conv 8 3 1 \<lparr>shape = [1, 8, 1], elems = [0, 1, 2, 3, 4, 5, 6, 7 :: real]\<rparr>
         \<lparr>shape = [3, 1, 1], elems = [1, 1, 1]\<rparr>
       = Inr \<lparr>shape = [1, 8, 1], elems = [0, 1, 3, 6, 9, 12, 15, 18]\<rparr>
   \<and> dilated_causal_conv 8 3 2 \<lparr>shape = [1, 8, 1], elems = [0, 1, 2, 3, 4, 5, 6, 7 :: real]\<rparr>
         \<lparr>shape = [3, 1, 1], elems = [1, 1, 1]\<rparr>
       = Inr \<lparr>shape = [1, 8, 1], elems = [0, 1, 2, 4, 6, 9, 12, 15]\<rparr>"
proof (intro conjI)
  show "signal_X 8 = Inr \<lparr>shape = [1, 8, 1], elems = [0, 1, 2, 3, 4, 5, 6, 7 :: real]\<rparr>"
    by (simp add: signal_X_def tf_range_def tf_reshape_def upt_rec)
  show "filter_H 3 = Inr \<lparr>shape = [3, 1, 1], elems = [1, 1, 1 :: real]\<rparr>"
    by (simp add: filter_H_def tf_ones_def numeral_3_eq_3)
  show "causal_conv 3 \<lparr>shape = [1, 8, 1], elems = [0, 1, 2, 3, 4, 5, 6, 7 :: real]\<rparr>
         \<lparr>shape = [3, 1, 1], elems = [1, 1, 1]\<rparr>
       = Inr \<lparr>shape = [1, 8, 1], elems = [0, 1, 3, 6, 9, 12, 15, 18]\<rparr>"
    by code_simp
  show "dilated_causal_conv 8 3 1 \<lparr>shape = [1, 8, 1], elems = [0, 1, 2, 3, 4, 5, 6, 7 :: real]\<rparr>
         \<lparr>shape = [3, 1, 1], elems = [1, 1, 1]\<rparr>
       = Inr \<lparr>shape = [1, 8, 1], elems = [0, 1, 3, 6, 9, 12, 15, 18]\<rparr>"
    by code_simp
  show "dilated_causal_conv 8 3 2 \<lparr>shape = [1, 8, 1], elems = [0, 1, 2, 3, 4, 5, 6, 7 :: real]\<rparr>
         \<lparr>shape = [3, 1, 1], elems = [1, 1, 1]\<rparr>
       = Inr \<lparr>shape = [1, 8, 1], elems = [0, 1, 2, 4, 6, 9, 12, 15]\<rparr>"
    by code_simp
qed

section \<open>The valid convolution\<close>



section \<open>The length of the dilated causal convolution\<close>

text \<open>
  Claim C1, as the notebook has it. Cell 8 pads the signal on the right to the next
  multiple of the dilation and never cuts the padding off again. For a non-empty
  signal of shape \<open>[1, T, 1]\<close> (\<open>T \<ge> 1\<close>), a filter of shape \<open>[filter_width, 1, 1]\<close> with
  \<open>filter_width \<ge> 1\<close> and a dilation \<open>d \<ge> 1\<close>, the result has batch size 1, one channel
  and time length \<open>T + (d - T mod d) mod d\<close>; this is \<open>T\<close> when \<open>d\<close> divides \<open>T\<close>.
\<close>

theorem dilated_causal_conv_length:
  fixes X H :: "('a::semiring_0) tensor"
  assumes "shape X = [1, T, 1]" and "shape H = [W, 1, 1]" and "0 < W" and "0 < D"
    and "0 < T"
  shows "\<exists>Y. dilated_causal_conv (int T) (int W) (int D) X H = Inr Y
           \<and> batch_size Y = 1 \<and> channels Y = 1
           \<and> time_length Y = T + (D - T mod D) mod D
           \<and> (D dvd T \<longrightarrow> time_length Y = time_length X)"
proof -
  let ?L = "T + (D - T mod D) mod D"
  have "?L mod D = 0" using assms(4) by (rule padded_length_multiple)
  then have "1 * ?L * 1 div D * 1 * D = ?L"
    by (simp add: mod_eq_0_iff_dvd)
  moreover have "D dvd T \<Longrightarrow> ?L = T"
    by (simp add: mod_eq_0_iff_dvd[symmetric])
  ultimately show ?thesis
    using assms(1)
    unfolding dilated_causal_conv_nat[OF assms(1-4) zero_less_one assms(5) zero_less_one]
    by (simp add: batch_size_def time_length_def channels_def)
qed

theorem dilated_causal_conv_length_witness:
  "shape \<lparr>shape = [1, 7, 1], elems = [0, 1, 2, 3, 4, 5, 6 :: real]\<rparr> = [1, 7, 1]
   \<and> shape \<lparr>shape = [3, 1, 1], elems = [1, 1, 1 :: real]\<rparr> = [3, 1, 1]
   \<and> (0 :: nat) < 3 \<and> (0 :: nat) < 2 \<and> (0 :: nat) < 7
   \<and> (\<exists>Y. dilated_causal_conv 7 3 2 \<lparr>shape = [1, 7, 1], elems = [0, 1, 2, 3, 4, 5, 6 :: real]\<rparr>
              \<lparr>shape = [3, 1, 1], elems = [1, 1, 1]\<rparr> = Inr Y
          \<and> time_length Y = 8)"
proof -
  let ?X = "\<lparr>shape = [1, 7, 1], elems = [0, 1, 2, 3, 4, 5, 6 :: real]\<rparr>"
  let ?H = "\<lparr>shape = [3, 1, 1], elems = [1, 1, 1 :: real]\<rparr>"
  have h1: "shape ?X = [1, 7, 1]" by simp
  have h2: "shape ?H = [3, 1, 1]" by simp
  have h3: "(0 :: nat) < 3" by simp
  have h4: "(0 :: nat) < 2" by simp
  have h5: "(0 :: nat) < 7" by simp
  from dilated_causal_conv_length[OF h1 h2 h3 h4 h5]
  obtain Y where "dilated_causal_conv (int 7) (int 3) (int 2) ?X ?H = Inr Y"
    and "time_length Y = 7 + (2 - 7 mod 2) mod 2"
    by blast
  then have "dilated_causal_conv 7 3 2 ?X ?H = Inr Y \<and> time_length Y = 8"
    by simp
  then show ?thesis by auto
qed

theorem length_invariance_counterexample:
  "dilated_causal_conv 7 3 2 \<lparr>shape = [1, 7, 1], elems = [0, 1, 2, 3, 4, 5, 6 :: real]\<rparr>
      \<lparr>shape = [3, 1, 1], elems = [1, 1, 1]\<rparr>
     = Inr \<lparr>shape = [1, 8, 1], elems = [0, 1, 2, 4, 6, 9, 12, 8]\<rparr>
   \<and> time_length \<lparr>shape = [1, 7, 1], elems = [0, 1, 2, 3, 4, 5, 6 :: real]\<rparr> = 7
   \<and> time_length \<lparr>shape = [1, 8, 1], elems = [0, 1, 2, 4, 6, 9, 12, 8 :: real]\<rparr> = 8
   \<and> dilated_causal_conv 2 1 2 \<lparr>shape = [2, 2, 1], elems = [1, 2, 3, 4 :: real]\<rparr>
      \<lparr>shape = [1, 1, 1], elems = [1]\<rparr>
     = Inr \<lparr>shape = [1, 4, 1], elems = [1, 2, 3, 4]\<rparr>
   \<and> time_length \<lparr>shape = [2, 2, 1], elems = [1, 2, 3, 4 :: real]\<rparr> = 2
   \<and> time_length \<lparr>shape = [1, 4, 1], elems = [1, 2, 3, 4 :: real]\<rparr> = 4
   \<and> dilated_causal_conv 0 3 2 \<lparr>shape = [1, 0, 1], elems = [] :: real list\<rparr>
      \<lparr>shape = [3, 1, 1], elems = [1, 1, 1]\<rparr>
     = Inl InvalidArgument"
proof (intro conjI)
  show "dilated_causal_conv 0 3 2 \<lparr>shape = [1, 0, 1], elems = [] :: real list\<rparr>
      \<lparr>shape = [3, 1, 1], elems = [1, 1, 1]\<rparr>
     = Inl InvalidArgument"
    by code_simp
  show "dilated_causal_conv 7 3 2 \<lparr>shape = [1, 7, 1], elems = [0, 1, 2, 3, 4, 5, 6 :: real]\<rparr>
      \<lparr>shape = [3, 1, 1], elems = [1, 1, 1]\<rparr>
     = Inr \<lparr>shape = [1, 8, 1], elems = [0, 1, 2, 4, 6, 9, 12, 8]\<rparr>"
    by code_simp
  show "dilated_causal_conv 2 1 2 \<lparr>shape = [2, 2, 1], elems = [1, 2, 3, 4 :: real]\<rparr>
      \<lparr>shape = [1, 1, 1], elems = [1]\<rparr>
     = Inr \<lparr>shape = [1, 4, 1], elems = [1, 2, 3, 4]\<rparr>"
    by code_simp
qed (simp_all add: time_length_def)

section \<open>Subsampling: the polyphase split\<close>

lemma nth_row_tabulate3:
  assumes "g < L"
  shows "elems (tabulate3 1 L 1 f) ! g = f 0 g 0"
  using assms by (simp add: nth_tabulate3)

text \<open>
  Claim C6, as the notebook has it. For a signal of shape \<open>[B, T, C]\<close> and a dilation
  \<open>d \<ge> 1\<close>, the first part of cell 8 computes the padding \<open>(d - T mod d) mod d\<close>, pads the
  time axis on the right with that many zero steps to the length \<open>L\<close>, and returns \<open>d\<close>
  streams (not \<open>B * d\<close>), each of length \<open>B * L * C / d\<close> with one channel: the reshape to
  \<open>[-1, d, 1]\<close> reads the whole padded tensor as one row-major sequence, and stream \<open>s\<close>
  holds its elements at the positions \<open>s, s + d, s + 2 d, ...\<close>. For batch size 1 and one
  channel these are the padded samples at the times \<open>s, s + d, s + 2 d, ...\<close>, and the
  streams have length \<open>L / d\<close>.
\<close>

theorem subsample_streams:
  fixes X :: "('a::zero) tensor"
  assumes "shape X = [B, T, C]" and "0 < D"
  shows "\<exists>P S. pad_amount (int T) (int D) = Inr (int ((D - T mod D) mod D))
           \<and> right_pad (int T) (int D) X = Inr P
           \<and> shape P = [B, T + (D - T mod D) mod D, C]
           \<and> (\<forall>b<B. \<forall>t<T + (D - T mod D) mod D. \<forall>c<C.
                 at3 P b t c = (if t < T then at3 X b t c else 0))
           \<and> subsample (int T) (int D) X = Inr S
           \<and> shape S = [D, B * (T + (D - T mod D) mod D) * C div D, 1]
           \<and> (\<forall>s<D. \<forall>p<B * (T + (D - T mod D) mod D) * C div D.
                 at3 S s p 0 = elems P ! (s + p * D))
           \<and> (B = 1 \<and> C = 1 \<longrightarrow>
                 time_length S = (T + (D - T mod D) mod D) div D
                 \<and> (\<forall>s<D. \<forall>p<(T + (D - T mod D) mod D) div D.
                       at3 S s p 0 = at3 P 0 (s + p * D) 0))"
proof -
  define L where "L = T + (D - T mod D) mod D"
  define P where "P = tabulate3 B L C (\<lambda>b t c. if t < T then at3 X b t c else 0)"
  define S where "S = tabulate3 D (B * L * C div D) 1 (\<lambda>s p c. elems P ! (p * D + s))"
  have a: "pad_amount (int T) (int D) = Inr (int ((D - T mod D) mod D))"
    using assms(2) by (rule pad_amount_nat)
  have b: "right_pad (int T) (int D) X = Inr P"
    unfolding P_def L_def using assms by (rule right_pad_nat)
  have c: "shape P = [B, L, C]" by (simp add: P_def)
  have d: "\<forall>b<B. \<forall>t<L. \<forall>c<C. at3 P b t c = (if t < T then at3 X b t c else 0)"
    by (simp add: P_def at3_tabulate3)
  have e: "subsample (int T) (int D) X = Inr S"
    unfolding S_def P_def L_def using assms by (rule subsample_nat)
  have f: "shape S = [D, B * L * C div D, 1]" by (simp add: S_def)
  have g: "\<forall>s<D. \<forall>p<B * L * C div D. at3 S s p 0 = elems P ! (s + p * D)"
    by (simp add: S_def at3_tabulate3 add.commute)
  have h: "B = 1 \<and> C = 1 \<longrightarrow> time_length S = L div D
             \<and> (\<forall>s<D. \<forall>p<L div D. at3 S s p 0 = at3 P 0 (s + p * D) 0)"
  proof (intro impI)
    assume "B = 1 \<and> C = 1"
    then have B: "B = 1" and C: "C = 1" by simp_all
    have "at3 P 0 i 0 = elems P ! i" for i
      using c C by (simp add: at3_def idx3_def)
    then show "time_length S = L div D
             \<and> (\<forall>s<D. \<forall>p<L div D. at3 S s p 0 = at3 P 0 (s + p * D) 0)"
      using f g B C by (simp add: time_length_def)
  qed
  from a b c d e f g h show ?thesis unfolding L_def by blast
qed

theorem subsample_streams_witness:
  "shape \<lparr>shape = [1, 3, 1], elems = [5, 6, 7 :: int]\<rparr> = [1, 3, 1] \<and> (0 :: nat) < 2
   \<and> (\<exists>S. subsample 3 2 \<lparr>shape = [1, 3, 1], elems = [5, 6, 7 :: int]\<rparr> = Inr S
          \<and> shape S = [2, 2, 1]
          \<and> at3 S 0 0 0 = 5 \<and> at3 S 0 1 0 = 7 \<and> at3 S 1 0 0 = 6 \<and> at3 S 1 1 0 = 0)"
proof -
  let ?X = "\<lparr>shape = [1, 3, 1], elems = [5, 6, 7 :: int]\<rparr>"
  have h1: "shape ?X = [1, 3, 1]" by simp
  have h2: "(0 :: nat) < 2" by simp
  from subsample_streams[OF h1 h2]
  obtain P S where S: "subsample (int 3) (int 2) ?X = Inr S"
    and shp: "shape S = [2, 1 * (3 + (2 - 3 mod 2) mod 2) * 1 div 2, 1]"
    and P: "\<forall>b<1. \<forall>t<3 + (2 - 3 mod 2) mod 2. \<forall>c<1.
                 at3 P b t c = (if t < 3 then at3 ?X b t c else 0)"
    and SP: "(1::nat) = 1 \<and> (1::nat) = 1 \<longrightarrow>
                 time_length S = (3 + (2 - 3 mod 2) mod 2) div 2
                 \<and> (\<forall>s<2. \<forall>p<(3 + (2 - 3 mod 2) mod 2) div 2.
                       at3 S s p 0 = at3 P 0 (s + p * 2) 0)"
    by blast
  have P': "at3 P 0 t 0 = (if t < 3 then at3 ?X 0 t 0 else 0)" if "t < 4" for t
    using P that by simp
  have SP': "at3 S s p 0 = at3 P 0 (s + p * 2) 0" if "s < 2" and "p < 2" for s p
    using SP that by simp
  have v: "at3 S s p 0 = (if s + p * 2 < 3 then at3 ?X 0 (s + p * 2) 0 else 0)"
    if "s < 2" and "p < 2" for s p
    using SP'[OF that] P'[of "s + p * 2"] that by simp
  have x: "at3 ?X 0 t 0 = [5, 6, 7 :: int] ! t" for t
    by (simp add: at3_def idx3_def)
  have "at3 S 0 0 0 = 5" "at3 S 0 1 0 = 7" "at3 S 1 0 0 = 6" "at3 S 1 1 0 = 0"
    using v[of 0 0] v[of 0 1] v[of 1 0] v[of 1 1] x by simp_all
  moreover have "subsample 3 2 ?X = Inr S" "shape S = [2, 2, 1]"
    using S shp by simp_all
  ultimately show ?thesis by simp
qed

theorem split_batch_counterexample:
  "subsample 2 2 \<lparr>shape = [2, 2, 1], elems = [1, 2, 3, 4 :: real]\<rparr>
     = Inr \<lparr>shape = [2, 2, 1], elems = [1, 3, 2, 4]\<rparr>
   \<and> batch_size \<lparr>shape = [2, 2, 1], elems = [1, 3, 2, 4 :: real]\<rparr>
       \<noteq> batch_size \<lparr>shape = [2, 2, 1], elems = [1, 2, 3, 4 :: real]\<rparr> * 2
   \<and> time_length \<lparr>shape = [2, 2, 1], elems = [1, 3, 2, 4 :: real]\<rparr>
       \<noteq> time_length \<lparr>shape = [2, 2, 1], elems = [1, 2, 3, 4 :: real]\<rparr> div 2"
proof (intro conjI)
  show "subsample 2 2 \<lparr>shape = [2, 2, 1], elems = [1, 2, 3, 4 :: real]\<rparr>
     = Inr \<lparr>shape = [2, 2, 1], elems = [1, 3, 2, 4]\<rparr>"
    by code_simp
qed (simp_all add: batch_size_def time_length_def)

section \<open>Undoing the subsampling: the polyphase merge\<close>

lemma undo_subsample_flat:
  fixes X :: "('a::zero) tensor"
  assumes "shape X = [B, T, C]" and "0 < D"
  defines "L \<equiv> T + (D - T mod D) mod D"
  defines "P \<equiv> tabulate3 B L C (\<lambda>b t c. if t < T then at3 X b t c else 0)"
  defines "S \<equiv> tabulate3 D (B * L * C div D) 1 (\<lambda>s p c. elems P ! (p * D + s))"
  shows "undo_subsampling (int D) S = Inr \<lparr>shape = [1, B * L * C, 1], elems = elems P\<rparr>"
proof -
  define M where "M = B * L * C div D"
  have "L mod D = 0" unfolding L_def using assms(2) by (rule padded_length_multiple)
  then have "D dvd B * L * C" by (simp add: mod_eq_0_iff_dvd)
  then have MD: "M * D = B * L * C" by (simp add: M_def)
  have len: "length (elems S) = D * M" by (simp add: S_def M_def)
  let ?Z = "tabulate3 1 (M * D) 1 (\<lambda>b g c. elems S ! (g mod D * M + g div D))"
  have "?Z = \<lparr>shape = [1, B * L * C, 1], elems = elems P\<rparr>"
  proof (rule tensor_eqI)
    show "shape ?Z = shape \<lparr>shape = [1, B * L * C, 1], elems = elems P\<rparr>"
      using MD by simp
    show "length (elems ?Z) = length (elems \<lparr>shape = [1, B * L * C, 1], elems = elems P\<rparr>)"
      using MD by (simp add: P_def)
  next
    fix g
    assume "g < length (elems \<lparr>shape = [1, B * L * C, 1], elems = elems P\<rparr>)"
    then have g: "g < M * D" using MD by (simp add: P_def)
    have s: "g mod D < D" using assms(2) by simp
    have p: "g div D < M" using g by (simp add: less_mult_imp_div_less)
    have "elems S ! (g mod D * M + g div D) = at3 S (g mod D) (g div D) 0"
      by (simp add: at3_def idx3_def S_def M_def)
    also have "\<dots> = elems P ! (g div D * D + g mod D)"
      unfolding S_def using s p by (simp add: at3_tabulate3 M_def)
    finally have "elems S ! (g mod D * M + g div D) = elems P ! g"
      by simp
    then show "elems ?Z ! g = elems \<lparr>shape = [1, B * L * C, 1], elems = elems P\<rparr> ! g"
      unfolding nth_row_tabulate3[OF g] by simp
  qed
  then show ?thesis
    using undo_subsampling_nat[OF assms(2) len] by simp
qed

text \<open>
  Claim C5, as the notebook has it. For a signal of shape \<open>[B, T, C]\<close> and a dilation
  \<open>d \<ge> 1\<close>, undoing the subsampling directly after the subsampling yields the elements
  of the right-padded signal in their row-major order, as one signal of shape
  \<open>[1, B * L * C, 1]\<close> (the last reshape of cell 8 is to \<open>[1, -1, 1]\<close>): element \<open>p\<close> of
  stream \<open>s\<close> is found at position \<open>s + p * d\<close>. For batch size 1 and one channel this
  is exactly the right-padded signal.
\<close>

theorem undo_subsampling_inverse:
  fixes X :: "('a::zero) tensor"
  assumes "shape X = [B, T, C]" and "0 < D"
  shows "\<exists>S P Z. subsample (int T) (int D) X = Inr S
           \<and> right_pad (int T) (int D) X = Inr P
           \<and> undo_subsampling (int D) S = Inr Z
           \<and> Z = \<lparr>shape = [1, B * (T + (D - T mod D) mod D) * C, 1], elems = elems P\<rparr>
           \<and> tf_reshape P [1, - 1, 1] = Inr Z
           \<and> (\<forall>s<D. \<forall>p<time_length S. at3 Z 0 (s + p * D) 0 = at3 S s p 0)
           \<and> (B = 1 \<and> C = 1 \<longrightarrow> Z = P)"
proof -
  define L where "L = T + (D - T mod D) mod D"
  define P where "P = tabulate3 B L C (\<lambda>b t c. if t < T then at3 X b t c else 0)"
  define S where "S = tabulate3 D (B * L * C div D) 1 (\<lambda>s p c. elems P ! (p * D + s))"
  define Z where "Z = \<lparr>shape = [1, B * L * C, 1], elems = elems P\<rparr>"
  have a: "subsample (int T) (int D) X = Inr S"
    unfolding S_def P_def L_def using assms by (rule subsample_nat)
  have b: "right_pad (int T) (int D) X = Inr P"
    unfolding P_def L_def using assms by (rule right_pad_nat)
  have c: "undo_subsampling (int D) S = Inr Z"
    unfolding Z_def S_def P_def L_def using assms by (rule undo_subsample_flat)
  have d: "tf_reshape P [1, - 1, 1] = Inr Z"
    by (simp add: tf_reshape_row Z_def P_def)
  have e: "\<forall>s<D. \<forall>p<time_length S. at3 Z 0 (s + p * D) 0 = at3 S s p 0"
  proof (intro allI impI)
    fix s p assume "s < D" and "p < time_length S"
    then have "at3 S s p 0 = elems P ! (p * D + s)"
      by (simp add: S_def time_length_def at3_tabulate3)
    moreover have "at3 Z 0 (s + p * D) 0 = elems P ! (p * D + s)"
      by (simp add: Z_def at3_def idx3_def add.commute)
    ultimately show "at3 Z 0 (s + p * D) 0 = at3 S s p 0" by simp
  qed
  have f: "B = 1 \<and> C = 1 \<longrightarrow> Z = P"
    by (simp add: Z_def P_def tabulate3_def)
  from a b c d e f show ?thesis unfolding Z_def L_def by blast
qed

theorem undo_subsampling_inverse_witness:
  "shape \<lparr>shape = [1, 3, 1], elems = [5, 6, 7 :: int]\<rparr> = [1, 3, 1] \<and> (0 :: nat) < 2
   \<and> (\<exists>S. subsample 3 2 \<lparr>shape = [1, 3, 1], elems = [5, 6, 7 :: int]\<rparr> = Inr S
          \<and> undo_subsampling 2 S = right_pad 3 2 \<lparr>shape = [1, 3, 1], elems = [5, 6, 7 :: int]\<rparr>)"
proof -
  let ?X = "\<lparr>shape = [1, 3, 1], elems = [5, 6, 7 :: int]\<rparr>"
  have h1: "shape ?X = [1, 3, 1]" by simp
  have h2: "(0 :: nat) < 2" by simp
  from undo_subsampling_inverse[OF h1 h2]
  obtain S P Z where "subsample (int 3) (int 2) ?X = Inr S"
    and "right_pad (int 3) (int 2) ?X = Inr P"
    and "undo_subsampling (int 2) S = Inr Z"
    and "(1::nat) = 1 \<and> (1::nat) = 1 \<longrightarrow> Z = P"
    by blast
  then have "subsample 3 2 ?X = Inr S \<and> undo_subsampling 2 S = right_pad 3 2 ?X"
    by simp
  then show ?thesis by auto
qed

theorem merge_split_counterexample:
  "subsample 2 2 \<lparr>shape = [2, 2, 1], elems = [1, 2, 3, 4 :: real]\<rparr>
     = Inr \<lparr>shape = [2, 2, 1], elems = [1, 3, 2, 4]\<rparr>
   \<and> undo_subsampling 2 \<lparr>shape = [2, 2, 1], elems = [1, 3, 2, 4 :: real]\<rparr>
     = Inr \<lparr>shape = [1, 4, 1], elems = [1, 2, 3, 4]\<rparr>
   \<and> right_pad 2 2 \<lparr>shape = [2, 2, 1], elems = [1, 2, 3, 4 :: real]\<rparr>
     = Inr \<lparr>shape = [2, 2, 1], elems = [1, 2, 3, 4]\<rparr>
   \<and> \<lparr>shape = [1, 4, 1], elems = [1, 2, 3, 4 :: real]\<rparr>
     \<noteq> \<lparr>shape = [2, 2, 1], elems = [1, 2, 3, 4]\<rparr>"
proof (intro conjI)
  show "subsample 2 2 \<lparr>shape = [2, 2, 1], elems = [1, 2, 3, 4 :: real]\<rparr>
     = Inr \<lparr>shape = [2, 2, 1], elems = [1, 3, 2, 4]\<rparr>"
    by code_simp
  show "undo_subsampling 2 \<lparr>shape = [2, 2, 1], elems = [1, 3, 2, 4 :: real]\<rparr>
     = Inr \<lparr>shape = [1, 4, 1], elems = [1, 2, 3, 4]\<rparr>"
    by code_simp
  show "right_pad 2 2 \<lparr>shape = [2, 2, 1], elems = [1, 2, 3, 4 :: real]\<rparr>
     = Inr \<lparr>shape = [2, 2, 1], elems = [1, 2, 3, 4]\<rparr>"
    by code_simp
  show "\<lparr>shape = [1, 4, 1], elems = [1, 2, 3, 4 :: real]\<rparr>
     \<noteq> \<lparr>shape = [2, 2, 1], elems = [1, 2, 3, 4]\<rparr>"
    by simp
qed

section \<open>Dilation 1 and the identity filter\<close>

lemma row_tensor_eq:
  assumes "shape X = [1, T, 1]" and "wf_tensor X"
  shows "tabulate3 1 T 1 (\<lambda>b t c. if t < T then at3 X b t c else 0) = X"
proof (rule tensor_eqI)
  show "shape (tabulate3 1 T 1 (\<lambda>b t c. if t < T then at3 X b t c else 0)) = shape X"
    using assms(1) by simp
  show "length (elems (tabulate3 1 T 1 (\<lambda>b t c. if t < T then at3 X b t c else 0))) =
        length (elems X)"
    using assms by (simp add: wf_tensor_def)
next
  fix n assume "n < length (elems X)"
  then have n: "n < T" using assms by (simp add: wf_tensor_def)
  show "elems (tabulate3 1 T 1 (\<lambda>b t c. if t < T then at3 X b t c else 0)) ! n = elems X ! n"
    unfolding nth_row_tabulate3[OF n] using n assms(1) by (simp add: at3_def idx3_def)
qed

lemma dilated_causal_conv_row:
  fixes X H :: "('a::semiring_0) tensor"
  assumes "shape X = [1, T, 1]" and "shape H = [W, 1, 1]" and "0 < W" and "0 < D"
    and "0 < T"
  defines "L \<equiv> T + (D - T mod D) mod D"
  shows "dilated_causal_conv (int T) (int W) (int D) X H =
         Inr (tabulate3 1 L 1
               (\<lambda>b g c. \<Sum>k<W.
                  (if (W - 1 - k) * D \<le> g \<and> g - (W - 1 - k) * D < T
                   then at3 X 0 (g - (W - 1 - k) * D) 0 else 0) * at3 H k 0 0))"
proof -
  define P where "P = tabulate3 1 L 1 (\<lambda>b t c. if t < T then at3 X b t c else 0)"
  have "L mod D = 0" unfolding L_def using assms(4) by (rule padded_length_multiple)
  then have eqL: "1 * L * 1 div D * 1 * D = L" by (simp add: mod_eq_0_iff_dvd)
  have "tabulate3 1 L 1
               (\<lambda>b g c. \<Sum>k<W.
                  (if W - 1 \<le> g div D div 1 + k
                   then elems P ! ((g div D div 1 + k - (W - 1)) * D + g mod D) else 0)
                  * elems H ! (k * 1 + g div D mod 1)) =
        tabulate3 1 L 1
               (\<lambda>b g c. \<Sum>k<W.
                  (if (W - 1 - k) * D \<le> g \<and> g - (W - 1 - k) * D < T
                   then at3 X 0 (g - (W - 1 - k) * D) 0 else 0) * at3 H k 0 0)"
  proof (rule tabulate3_cong, rule sum.cong[OF refl])
    fix b g c k :: nat
    assume g: "g < L" and "k \<in> {..<W}"
    then have k: "k < W" by simp
    have h: "elems H ! (k * 1 + g div D mod 1) = at3 H k 0 0"
      using assms(2) by (simp add: at3_def idx3_def)
    have le: "(W - 1 \<le> g div D + k) = ((W - 1 - k) * D \<le> g)"
    proof
      assume "W - 1 \<le> g div D + k"
      then have "W - 1 - k \<le> g div D" by simp
      then have "(W - 1 - k) * D \<le> g div D * D" by (rule mult_le_mono1)
      also have "\<dots> \<le> g" by simp
      finally show "(W - 1 - k) * D \<le> g" .
    next
      assume "(W - 1 - k) * D \<le> g"
      then have "(W - 1 - k) * D div D \<le> g div D" by (rule div_le_mono)
      then show "W - 1 \<le> g div D + k" using assms(4) by simp
    qed
    have "(if W - 1 \<le> g div D div 1 + k
                   then elems P ! ((g div D div 1 + k - (W - 1)) * D + g mod D) else 0) =
          (if (W - 1 - k) * D \<le> g \<and> g - (W - 1 - k) * D < T
                   then at3 X 0 (g - (W - 1 - k) * D) 0 else 0)"
    proof (cases "(W - 1 - k) * D \<le> g")
      case False
      then show ?thesis using le by simp
    next
      case True
      then have a: "W - 1 \<le> g div D + k" using le by simp
      then have "g div D + k - (W - 1) = g div D - (W - 1 - k)" using k by simp
      then have "(g div D + k - (W - 1)) * D + g mod D = g div D * D - (W - 1 - k) * D + g mod D"
        by (simp add: diff_mult_distrib)
      also have "\<dots> = g div D * D + g mod D - (W - 1 - k) * D"
      proof -
        have "W - 1 - k \<le> g div D" using a by simp
        then have "(W - 1 - k) * D \<le> g div D * D" by (rule mult_le_mono1)
        then show ?thesis by linarith
      qed
      also have "\<dots> = g - (W - 1 - k) * D" by simp
      finally have i: "(g div D + k - (W - 1)) * D + g mod D = g - (W - 1 - k) * D" .
      have "g - (W - 1 - k) * D < L" using g by simp
      then have "elems P ! (g - (W - 1 - k) * D) =
                 (if g - (W - 1 - k) * D < T then at3 X 0 (g - (W - 1 - k) * D) 0 else 0)"
        unfolding P_def by (rule nth_row_tabulate3)
      then show ?thesis using True a i by simp
    qed
    then show "(if W - 1 \<le> g div D div 1 + k
                   then elems P ! ((g div D div 1 + k - (W - 1)) * D + g mod D) else 0)
                  * elems H ! (k * 1 + g div D mod 1) =
          (if (W - 1 - k) * D \<le> g \<and> g - (W - 1 - k) * D < T
                   then at3 X 0 (g - (W - 1 - k) * D) 0 else 0) * at3 H k 0 0"
      by (simp only: h)
  qed
  then show ?thesis
    using dilated_causal_conv_nat[OF assms(1-4) zero_less_one assms(5) zero_less_one]
    unfolding P_def L_def eqL[unfolded L_def] by simp
qed

lemma sum_lessThan_one: "(\<Sum>c<(1::nat). f c) = (f 0 :: 'a::comm_monoid_add)"
  by simp

lemma row_elems_eq:
  assumes "shape Y = [1, T, 1]" and "wf_tensor Y"
  shows "tabulate3 1 T 1 (\<lambda>b g c. elems Y ! g) = Y"
proof (rule tensor_eqI)
  show "shape (tabulate3 1 T 1 (\<lambda>b g c. elems Y ! g)) = shape Y"
    using assms(1) by simp
  show "length (elems (tabulate3 1 T 1 (\<lambda>b g c. elems Y ! g))) = length (elems Y)"
    using assms by (simp add: wf_tensor_def)
next
  fix n assume "n < length (elems Y)"
  then have n: "n < T" using assms by (simp add: wf_tensor_def)
  show "elems (tabulate3 1 T 1 (\<lambda>b g c. elems Y ! g)) ! n = elems Y ! n"
    unfolding nth_row_tabulate3[OF n] ..
qed

lemma subsample_one:
  fixes X :: "('a::zero) tensor"
  assumes "shape X = [1, T, 1]" and "wf_tensor X"
  shows "subsample (int T) 1 X = Inr X"
proof -
  have "subsample (int T) (int 1) X =
        Inr (tabulate3 1 (1 * (T + (1 - T mod 1) mod 1) * 1 div 1) 1
              (\<lambda>s p c. elems (tabulate3 1 (T + (1 - T mod 1) mod 1) 1
                                 (\<lambda>b t c. if t < T then at3 X b t c else 0)) ! (p * 1 + s)))"
    using assms(1) by (rule subsample_nat) simp
  then have "subsample (int T) 1 X =
             Inr (tabulate3 1 T 1
                   (\<lambda>s p c. elems (tabulate3 1 T 1 (\<lambda>b t c. if t < T then at3 X b t c else 0)) ! (p + s)))"
    by simp
  also have "tabulate3 1 T 1
               (\<lambda>s p c. elems (tabulate3 1 T 1 (\<lambda>b t c. if t < T then at3 X b t c else 0)) ! (p + s)) =
             tabulate3 1 T 1 (\<lambda>b g c. elems X ! g)"
    unfolding row_tensor_eq[OF assms] by (rule tabulate3_cong) simp
  also have "\<dots> = X" using assms by (rule row_elems_eq)
  finally show ?thesis .
qed

lemma undo_subsampling_one:
  assumes "shape Y = [1, T, 1]" and "wf_tensor Y"
  shows "undo_subsampling 1 Y = Inr Y"
proof -
  have "length (elems Y) = 1 * T" using assms by (simp add: wf_tensor_def)
  with undo_subsampling_nat[of 1 Y T]
  have "undo_subsampling (int 1) Y =
        Inr (tabulate3 1 (T * 1) 1 (\<lambda>b g c. elems Y ! (g mod 1 * T + g div 1)))"
    by simp
  then have "undo_subsampling 1 Y = Inr (tabulate3 1 T 1 (\<lambda>b g c. elems Y ! g))"
    by simp
  then show ?thesis unfolding row_elems_eq[OF assms] .
qed

text \<open>
  Claim C4, as the notebook has it. For a non-empty signal of shape \<open>[1, T, 1]\<close>
  (\<open>T \<ge> 1\<close>) and a filter of
  shape \<open>[filter_width, 1, 1]\<close> with \<open>filter_width \<ge> 1\<close>, cell 8 at dilation 1 returns
  exactly what cell 6 returns (the valid convolution of the signal padded on the left
  by \<open>filter_width - 1\<close>): the padding amount is 0, and the subsampling and its inverse
  return their arguments.
\<close>

theorem dilation_one_equivalence:
  fixes X H :: "('a::semiring_0) tensor"
  assumes "shape X = [1, T, 1]" and "wf_tensor X" and "shape H = [W, 1, 1]" and "0 < W"
    and "0 < T"
  shows "\<exists>Y. causal_conv (int W) X H = Inr Y
           \<and> dilated_causal_conv (int T) (int W) 1 X H = Inr Y
           \<and> pad_amount (int T) 1 = Inr 0
           \<and> subsample (int T) 1 X = Inr X
           \<and> undo_subsampling 1 Y = Inr Y"
proof -
  define Y where "Y = tabulate3 1 T 1
               (\<lambda>b t o'. \<Sum>k<W. \<Sum>c<1.
                  (if W - 1 \<le> t + k then at3 X b (t + k - (W - 1)) c else 0) * at3 H k c o')"
  have a: "causal_conv (int W) X H = Inr Y"
    unfolding Y_def using assms(1,3,4,5) by (rule causal_conv_nat)
  have "dilated_causal_conv (int T) (int W) (int 1) X H =
         Inr (tabulate3 1 (T + (1 - T mod 1) mod 1) 1
               (\<lambda>b g c. \<Sum>k<W.
                  (if (W - 1 - k) * 1 \<le> g \<and> g - (W - 1 - k) * 1 < T
                   then at3 X 0 (g - (W - 1 - k) * 1) 0 else 0) * at3 H k 0 0))"
    using assms(1,3,4) by (rule dilated_causal_conv_row) (use assms(5) in simp_all)
  then have "dilated_causal_conv (int T) (int W) 1 X H =
         Inr (tabulate3 1 T 1
               (\<lambda>b g c. \<Sum>k<W.
                  (if W - 1 - k \<le> g \<and> g - (W - 1 - k) < T
                   then at3 X 0 (g - (W - 1 - k)) 0 else 0) * at3 H k 0 0))"
    by (simp cong: if_cong)
  also have "tabulate3 1 T 1
               (\<lambda>b g c. \<Sum>k<W.
                  (if W - 1 - k \<le> g \<and> g - (W - 1 - k) < T
                   then at3 X 0 (g - (W - 1 - k)) 0 else 0) * at3 H k 0 0) = Y"
    unfolding Y_def
  proof (rule tabulate3_cong)
    fix b g o' :: nat
    assume "b < 1" and g: "g < T" and "o' < 1"
    then have b: "b = 0" and o': "o' = 0" by simp_all
    have "(if W - 1 - k \<le> g \<and> g - (W - 1 - k) < T
                   then at3 X 0 (g - (W - 1 - k)) 0 else 0) =
          (if W - 1 \<le> g + k then at3 X 0 (g + k - (W - 1)) 0 else 0)" if "k < W" for k
    proof -
      have "(W - 1 - k \<le> g \<and> g - (W - 1 - k) < T) = (W - 1 \<le> g + k)"
        using g that by auto
      moreover have "W - 1 \<le> g + k \<Longrightarrow> g - (W - 1 - k) = g + k - (W - 1)"
        using that by simp
      ultimately show ?thesis by simp
    qed
    then have "(\<Sum>k<W. (if W - 1 - k \<le> g \<and> g - (W - 1 - k) < T
                   then at3 X 0 (g - (W - 1 - k)) 0 else 0) * at3 H k 0 0) =
          (\<Sum>k<W. (if W - 1 \<le> g + k then at3 X 0 (g + k - (W - 1)) 0 else 0) * at3 H k 0 0)"
      by (intro sum.cong refl) simp
    also have "\<dots> = (\<Sum>k<W. \<Sum>c<1.
                  (if W - 1 \<le> g + k then at3 X 0 (g + k - (W - 1)) c else 0) * at3 H k c 0)"
      by (simp only: sum_lessThan_one)
    finally show "(\<Sum>k<W. (if W - 1 - k \<le> g \<and> g - (W - 1 - k) < T
                   then at3 X 0 (g - (W - 1 - k)) 0 else 0) * at3 H k 0 0) =
          (\<Sum>k<W. \<Sum>c<1.
                  (if W - 1 \<le> g + k then at3 X b (g + k - (W - 1)) c else 0) * at3 H k c o')"
      unfolding b o' .
  qed
  finally have b: "dilated_causal_conv (int T) (int W) 1 X H = Inr Y" .
  have c: "pad_amount (int T) 1 = Inr 0"
    by (simp add: pad_amount_def)
  have d: "subsample (int T) 1 X = Inr X"
    using assms(1,2) by (rule subsample_one)
  have e: "undo_subsampling 1 Y = Inr Y"
    by (rule undo_subsampling_one[of Y T]) (simp_all add: Y_def)
  from a b c d e show ?thesis by blast
qed

theorem dilation_one_equivalence_witness:
  "shape \<lparr>shape = [1, 4, 1], elems = [1, 2, 3, 4 :: real]\<rparr> = [1, 4, 1]
   \<and> wf_tensor \<lparr>shape = [1, 4, 1], elems = [1, 2, 3, 4 :: real]\<rparr>
   \<and> shape \<lparr>shape = [2, 1, 1], elems = [1, 1 :: real]\<rparr> = [2, 1, 1]
   \<and> (0 :: nat) < 2 \<and> (0 :: nat) < 4
   \<and> dilated_causal_conv 4 2 1 \<lparr>shape = [1, 4, 1], elems = [1, 2, 3, 4 :: real]\<rparr>
         \<lparr>shape = [2, 1, 1], elems = [1, 1]\<rparr>
       = causal_conv 2 \<lparr>shape = [1, 4, 1], elems = [1, 2, 3, 4 :: real]\<rparr>
         \<lparr>shape = [2, 1, 1], elems = [1, 1]\<rparr>
   \<and> causal_conv 2 \<lparr>shape = [1, 4, 1], elems = [1, 2, 3, 4 :: real]\<rparr>
         \<lparr>shape = [2, 1, 1], elems = [1, 1]\<rparr>
       = Inr \<lparr>shape = [1, 4, 1], elems = [1, 3, 5, 7]\<rparr>"
proof -
  let ?X = "\<lparr>shape = [1, 4, 1], elems = [1, 2, 3, 4 :: real]\<rparr>"
  let ?H = "\<lparr>shape = [2, 1, 1], elems = [1, 1 :: real]\<rparr>"
  have h1: "shape ?X = [1, 4, 1]" by simp
  have h2: "wf_tensor ?X" by (simp add: wf_tensor_def)
  have h3: "shape ?H = [2, 1, 1]" by simp
  have h4: "(0 :: nat) < 2" by simp
  have h5: "(0 :: nat) < 4" by simp
  from dilation_one_equivalence[OF h1 h2 h3 h4 h5]
  obtain Y where "causal_conv (int 2) ?X ?H = Inr Y"
    and "dilated_causal_conv (int 4) (int 2) 1 ?X ?H = Inr Y"
    by blast
  then have "dilated_causal_conv 4 2 1 ?X ?H = causal_conv 2 ?X ?H"
    by simp
  moreover have "causal_conv 2 ?X ?H = Inr \<lparr>shape = [1, 4, 1], elems = [1, 3, 5, 7]\<rparr>"
    by code_simp
  ultimately show ?thesis using h2 by simp
qed

theorem dilation_one_counterexample:
  "dilated_causal_conv 2 2 1 \<lparr>shape = [2, 2, 1], elems = [1, 2, 3, 4 :: real]\<rparr>
      \<lparr>shape = [2, 1, 1], elems = [1, 1]\<rparr>
     = Inr \<lparr>shape = [1, 4, 1], elems = [1, 3, 5, 7]\<rparr>
   \<and> causal_conv 2 \<lparr>shape = [2, 2, 1], elems = [1, 2, 3, 4 :: real]\<rparr>
      \<lparr>shape = [2, 1, 1], elems = [1, 1]\<rparr>
     = Inr \<lparr>shape = [2, 2, 1], elems = [1, 3, 3, 7]\<rparr>
   \<and> \<lparr>shape = [1, 4, 1], elems = [1, 3, 5, 7 :: real]\<rparr>
     \<noteq> \<lparr>shape = [2, 2, 1], elems = [1, 3, 3, 7]\<rparr>
   \<and> causal_conv 2 \<lparr>shape = [1, 0, 1], elems = [] :: real list\<rparr>
      \<lparr>shape = [2, 1, 1], elems = [1, 1]\<rparr>
     = Inl InvalidArgument
   \<and> dilated_causal_conv 0 2 1 \<lparr>shape = [1, 0, 1], elems = [] :: real list\<rparr>
      \<lparr>shape = [2, 1, 1], elems = [1, 1]\<rparr>
     = Inl InvalidArgument"
proof (intro conjI)
  show "causal_conv 2 \<lparr>shape = [1, 0, 1], elems = [] :: real list\<rparr>
      \<lparr>shape = [2, 1, 1], elems = [1, 1]\<rparr>
     = Inl InvalidArgument"
    by code_simp
  show "dilated_causal_conv 0 2 1 \<lparr>shape = [1, 0, 1], elems = [] :: real list\<rparr>
      \<lparr>shape = [2, 1, 1], elems = [1, 1]\<rparr>
     = Inl InvalidArgument"
    by code_simp
  show "dilated_causal_conv 2 2 1 \<lparr>shape = [2, 2, 1], elems = [1, 2, 3, 4 :: real]\<rparr>
      \<lparr>shape = [2, 1, 1], elems = [1, 1]\<rparr>
     = Inr \<lparr>shape = [1, 4, 1], elems = [1, 3, 5, 7]\<rparr>"
    by code_simp
  show "causal_conv 2 \<lparr>shape = [2, 2, 1], elems = [1, 2, 3, 4 :: real]\<rparr>
      \<lparr>shape = [2, 1, 1], elems = [1, 1]\<rparr>
     = Inr \<lparr>shape = [2, 2, 1], elems = [1, 3, 3, 7]\<rparr>"
    by code_simp
  show "\<lparr>shape = [1, 4, 1], elems = [1, 3, 5, 7 :: real]\<rparr>
     \<noteq> \<lparr>shape = [2, 2, 1], elems = [1, 3, 3, 7]\<rparr>"
    by simp
qed

text \<open>
  Claim C9, as the notebook has it. For a non-empty signal of shape \<open>[1, T, 1]\<close>
  (\<open>T \<ge> 1\<close>), a dilation
  \<open>d \<ge> 1\<close> and the filter of width 1 whose single tap is 1, cell 8 returns the signal
  padded on the right with \<open>(d - T mod d) mod d\<close> zeros: the input itself when \<open>d\<close>
  divides \<open>T\<close>, and a longer signal otherwise.
\<close>

theorem identity_filter:
  fixes X :: "('a::semiring_1) tensor"
  assumes "shape X = [1, T, 1]" and "wf_tensor X" and "0 < D" and "0 < T"
  shows "\<exists>P. right_pad (int T) (int D) X = Inr P
           \<and> dilated_causal_conv (int T) 1 (int D) X \<lparr>shape = [1, 1, 1], elems = [1]\<rparr> = Inr P
           \<and> time_length P = T + (D - T mod D) mod D
           \<and> (\<forall>t<time_length P. at3 P 0 t 0 = (if t < T then at3 X 0 t 0 else 0))
           \<and> (D dvd T \<longrightarrow> P = X)"
proof -
  define L where "L = T + (D - T mod D) mod D"
  define P where "P = tabulate3 1 L 1 (\<lambda>b t c. if t < T then at3 X b t c else 0)"
  let ?H = "\<lparr>shape = [1, 1, 1], elems = [1 :: 'a]\<rparr>"
  have a: "right_pad (int T) (int D) X = Inr P"
    unfolding P_def L_def using assms(1,3) by (rule right_pad_nat)
  have "dilated_causal_conv (int T) (int 1) (int D) X ?H =
         Inr (tabulate3 1 L 1
               (\<lambda>b g c. \<Sum>k<1.
                  (if (1 - 1 - k) * D \<le> g \<and> g - (1 - 1 - k) * D < T
                   then at3 X 0 (g - (1 - 1 - k) * D) 0 else 0) * at3 ?H k 0 0))"
    unfolding L_def using assms(1) _ _ assms(3,4) by (rule dilated_causal_conv_row) simp_all
  also have "tabulate3 1 L 1
               (\<lambda>b g c. \<Sum>k<1.
                  (if (1 - 1 - k) * D \<le> g \<and> g - (1 - 1 - k) * D < T
                   then at3 X 0 (g - (1 - 1 - k) * D) 0 else 0) * at3 ?H k 0 0) = P"
    unfolding P_def by (rule tabulate3_cong) (simp add: at3_def idx3_def)
  finally have b: "dilated_causal_conv (int T) 1 (int D) X ?H = Inr P" by simp
  have c: "time_length P = L" by (simp add: P_def time_length_def)
  have d: "\<forall>t<time_length P. at3 P 0 t 0 = (if t < T then at3 X 0 t 0 else 0)"
    unfolding c by (simp add: P_def at3_tabulate3)
  have e: "D dvd T \<longrightarrow> P = X"
  proof
    assume "D dvd T"
    then have "L = T" by (simp add: L_def mod_eq_0_iff_dvd[symmetric])
    then show "P = X" unfolding P_def using row_tensor_eq[OF assms(1,2)] by simp
  qed
  from a b c d e show ?thesis unfolding L_def by blast
qed

theorem identity_filter_witness:
  "shape \<lparr>shape = [1, 3, 1], elems = [5, 6, 7 :: real]\<rparr> = [1, 3, 1]
   \<and> wf_tensor \<lparr>shape = [1, 3, 1], elems = [5, 6, 7 :: real]\<rparr>
   \<and> (0 :: nat) < 2 \<and> (0 :: nat) < 3
   \<and> (\<exists>P. dilated_causal_conv 3 1 2 \<lparr>shape = [1, 3, 1], elems = [5, 6, 7 :: real]\<rparr>
              \<lparr>shape = [1, 1, 1], elems = [1]\<rparr> = Inr P
          \<and> right_pad 3 2 \<lparr>shape = [1, 3, 1], elems = [5, 6, 7 :: real]\<rparr> = Inr P
          \<and> time_length P = 4)"
proof -
  let ?X = "\<lparr>shape = [1, 3, 1], elems = [5, 6, 7 :: real]\<rparr>"
  have h1: "shape ?X = [1, 3, 1]" by simp
  have h2: "wf_tensor ?X" by (simp add: wf_tensor_def)
  have h3: "(0 :: nat) < 2" by simp
  have h4: "(0 :: nat) < 3" by simp
  from identity_filter[OF h1 h2 h3 h4]
  obtain P where "right_pad (int 3) (int 2) ?X = Inr P"
    and "dilated_causal_conv (int 3) 1 (int 2) ?X \<lparr>shape = [1, 1, 1], elems = [1]\<rparr> = Inr P"
    and "time_length P = 3 + (2 - 3 mod 2) mod 2"
    by blast
  then have "dilated_causal_conv 3 1 2 ?X \<lparr>shape = [1, 1, 1], elems = [1]\<rparr> = Inr P
      \<and> right_pad 3 2 ?X = Inr P \<and> time_length P = 4"
    by simp
  then show ?thesis using h2 by auto
qed

theorem identity_filter_counterexample:
  "dilated_causal_conv 3 1 2 \<lparr>shape = [1, 3, 1], elems = [5, 6, 7 :: real]\<rparr>
      \<lparr>shape = [1, 1, 1], elems = [1]\<rparr>
     = Inr \<lparr>shape = [1, 4, 1], elems = [5, 6, 7, 0]\<rparr>
   \<and> \<lparr>shape = [1, 4, 1], elems = [5, 6, 7, 0 :: real]\<rparr>
     \<noteq> \<lparr>shape = [1, 3, 1], elems = [5, 6, 7]\<rparr>
   \<and> dilated_causal_conv 2 1 1 \<lparr>shape = [1, 2, 2], elems = [5, 6, 7, 8 :: real]\<rparr>
      \<lparr>shape = [1, 2, 2], elems = [1, 0, 0, 1]\<rparr>
     = Inl InvalidArgument
   \<and> dilated_causal_conv 0 1 2 \<lparr>shape = [1, 0, 1], elems = [] :: real list\<rparr>
      \<lparr>shape = [1, 1, 1], elems = [1]\<rparr>
     = Inl InvalidArgument"
proof (intro conjI)
  show "dilated_causal_conv 0 1 2 \<lparr>shape = [1, 0, 1], elems = [] :: real list\<rparr>
      \<lparr>shape = [1, 1, 1], elems = [1]\<rparr>
     = Inl InvalidArgument"
    by code_simp
  show "dilated_causal_conv 3 1 2 \<lparr>shape = [1, 3, 1], elems = [5, 6, 7 :: real]\<rparr>
      \<lparr>shape = [1, 1, 1], elems = [1]\<rparr>
     = Inr \<lparr>shape = [1, 4, 1], elems = [5, 6, 7, 0]\<rparr>"
    by code_simp
  show "\<lparr>shape = [1, 4, 1], elems = [5, 6, 7, 0 :: real]\<rparr>
     \<noteq> \<lparr>shape = [1, 3, 1], elems = [5, 6, 7]\<rparr>"
    by simp
  show "dilated_causal_conv 2 1 1 \<lparr>shape = [1, 2, 2], elems = [5, 6, 7, 8 :: real]\<rparr>
      \<lparr>shape = [1, 2, 2], elems = [1, 0, 0, 1]\<rparr>
     = Inl InvalidArgument"
    by code_simp
qed

section \<open>The dilated causal convolution against the zero-interleaved filter\<close>

lemma sum_multiples:
  fixes F :: "nat \<Rightarrow> 'a::comm_monoid_add"
  assumes "0 < D"
  shows "(\<Sum>j<(W - 1) * D + 1. if j mod D = 0 \<and> j div D < W then F (j div D) else 0) = (\<Sum>k<W. F k)"
proof (cases "W = 0")
  case True
  then show ?thesis by simp
next
  case False
  let ?G = "\<lambda>j. if j mod D = 0 \<and> j div D < W then F (j div D) else 0"
  let ?S = "(\<lambda>k. k * D) ` {..<W}"
  have sub: "?S \<subseteq> {..<(W - 1) * D + 1}"
  proof
    fix j assume "j \<in> ?S"
    then obtain k where k: "k < W" and j: "j = k * D" by auto
    from k have "k \<le> W - 1" by simp
    then have "k * D \<le> (W - 1) * D" by (rule mult_le_mono1)
    then have "k * D < (W - 1) * D + 1" by linarith
    then show "j \<in> {..<(W - 1) * D + 1}" by (simp only: j lessThan_iff)
  qed
  have zero: "\<forall>j \<in> {..<(W - 1) * D + 1} - ?S. ?G j = 0"
  proof
    fix j assume j: "j \<in> {..<(W - 1) * D + 1} - ?S"
    show "?G j = 0"
    proof (cases "j mod D = 0 \<and> j div D < W")
      case True
      then have "j = j div D * D" by (simp add: mod_eq_0_iff_dvd)
      with True have "j \<in> ?S" by blast
      with j show ?thesis by simp
    next
      case False
      then show ?thesis by (rule if_not_P)
    qed
  qed
  have inj: "inj_on (\<lambda>k. k * D) {..<W}"
    using assms by (simp add: inj_on_def)
  have "sum ?G {..<(W - 1) * D + 1} = sum ?G ?S"
    using sub zero by (intro sum.mono_neutral_right) simp_all
  also have "\<dots> = (\<Sum>k<W. ?G (k * D))"
    using inj by (simp add: sum.reindex)
  also have "\<dots> = (\<Sum>k<W. F k)"
    using assms by (intro sum.cong refl) simp
  finally show ?thesis .
qed

lemma sparse_kernel_causal_conv_row:
  fixes X H :: "('a::semiring_0) tensor"
  assumes "shape X = [1, T, 1]" and "shape H = [W, 1, 1]" and "0 < W" and "0 < D"
    and "0 < T"
  shows "sparse_kernel_causal_conv (int W) (int D) X H =
         Inr (tabulate3 1 T 1
               (\<lambda>b g c. \<Sum>k<W.
                  (if (W - 1 - k) * D \<le> g then at3 X 0 (g - (W - 1 - k) * D) 0 else 0)
                  * at3 H k 0 0))"
proof -
  define W' where "W' = (W - 1) * D + 1"
  define H' where "H' = zero_interleaved D H"
  have shp: "shape H' = [W', 1, 1]"
    using assms(2) by (simp add: H'_def zero_interleaved_def W'_def)
  have W': "0 < W'" by (simp add: W'_def)
  have e: "(int W - 1) * int D + 1 = int W'"
    using assms(3) by (simp add: W'_def of_nat_diff)
  have "causal_conv (int W') X H' =
         Inr (tabulate3 1 T 1
               (\<lambda>b t o'. \<Sum>j<W'. \<Sum>c<1.
                  (if W' - 1 \<le> t + j then at3 X b (t + j - (W' - 1)) c else 0) * at3 H' j c o'))"
    using assms(1) shp W' assms(5) by (rule causal_conv_nat)
  also have "tabulate3 1 T 1
               (\<lambda>b t o'. \<Sum>j<W'. \<Sum>c<1.
                  (if W' - 1 \<le> t + j then at3 X b (t + j - (W' - 1)) c else 0) * at3 H' j c o') =
             tabulate3 1 T 1
               (\<lambda>b g c. \<Sum>k<W.
                  (if (W - 1 - k) * D \<le> g then at3 X 0 (g - (W - 1 - k) * D) 0 else 0)
                  * at3 H k 0 0)"
  proof (rule tabulate3_cong)
    fix b g o' :: nat
    assume "b < 1" and g: "g < T" and "o' < 1"
    then have b: "b = 0" and o': "o' = 0" by simp_all
    let ?F = "\<lambda>k. (if (W - 1 - k) * D \<le> g then at3 X 0 (g - (W - 1 - k) * D) 0 else 0)
                  * at3 H k 0 0"
    have summand: "(if W' - 1 \<le> g + j then at3 X 0 (g + j - (W' - 1)) 0 else 0) * at3 H' j 0 0 =
          (if j mod D = 0 \<and> j div D < W then ?F (j div D) else 0)" if "j < W'" for j
    proof (cases "j mod D = 0")
      case False
      then have "at3 H' j 0 0 = 0"
        using that assms(2) by (simp add: H'_def zero_interleaved_def W'_def at3_tabulate3)
      then show ?thesis using False by simp
    next
      case True
      define k where "k = j div D"
      have j: "j = k * D" using True by (simp add: k_def mod_eq_0_iff_dvd)
      have "j < (W - 1) * D + 1" using that by (simp only: W'_def)
      then have "k * D \<le> (W - 1) * D" unfolding j by linarith
      then have kle: "k \<le> W - 1" using assms(4) by simp
      then have k: "k < W" using assms(3) by simp
      have h: "at3 H' j 0 0 = at3 H k 0 0"
        using that assms(2) True
        by (simp add: H'_def zero_interleaved_def W'_def at3_tabulate3 k_def)
      have d: "(W - 1) * D - k * D = (W - 1 - k) * D"
        by (simp add: diff_mult_distrib)
      have c1: "(W' - 1 \<le> g + j) = ((W - 1 - k) * D \<le> g)"
        unfolding W'_def j d[symmetric] using \<open>k * D \<le> (W - 1) * D\<close> by auto
      have c2: "g + j - (W' - 1) = g - (W - 1 - k) * D"
        unfolding W'_def j d[symmetric] using \<open>k * D \<le> (W - 1) * D\<close> by simp
      show ?thesis
        unfolding h c1 c2 using True k by (simp add: k_def)
    qed
    have "(\<Sum>j<W'. \<Sum>c<1.
                  (if W' - 1 \<le> g + j then at3 X b (g + j - (W' - 1)) c else 0) * at3 H' j c o') =
          (\<Sum>j<W'. (if W' - 1 \<le> g + j then at3 X 0 (g + j - (W' - 1)) 0 else 0) * at3 H' j 0 0)"
      unfolding b o' by (simp only: sum_lessThan_one)
    also have "\<dots> = (\<Sum>j<W'. if j mod D = 0 \<and> j div D < W then ?F (j div D) else 0)"
      by (rule sum.cong[OF refl]) (simp only: lessThan_iff summand)
    also have "\<dots> = (\<Sum>k<W. ?F k)"
      unfolding W'_def using assms(4) by (rule sum_multiples)
    finally show "(\<Sum>j<W'. \<Sum>c<1.
                  (if W' - 1 \<le> g + j then at3 X b (g + j - (W' - 1)) c else 0) * at3 H' j c o') =
          (\<Sum>k<W. ?F k)" .
  qed
  finally show ?thesis
    unfolding sparse_kernel_causal_conv_def e nat_int H'_def .
qed

text \<open>
  Claim C2, as the notebook has it. For a non-empty signal of shape \<open>[1, T, 1]\<close>
  (\<open>T \<ge> 1\<close>), a filter of
  shape \<open>[filter_width, 1, 1]\<close> with \<open>filter_width \<ge> 1\<close> and a dilation \<open>d \<ge> 1\<close>, the
  output of cell 8 at every time \<open>p * d + s\<close> below \<open>T\<close> (phase \<open>s < d\<close>) equals the causal
  convolution of the signal with the zero-interleaved filter at that time; and the
  whole output, padding tail included, is the causal convolution of the right-padded
  signal with the zero-interleaved filter.
\<close>

theorem polyphase_equals_sparse_kernel:
  fixes X H :: "('a::semiring_0) tensor"
  assumes "shape X = [1, T, 1]" and "shape H = [W, 1, 1]" and "0 < W" and "0 < D"
    and "0 < T"
  shows "\<exists>Y Z P. dilated_causal_conv (int T) (int W) (int D) X H = Inr Y
           \<and> sparse_kernel_causal_conv (int W) (int D) X H = Inr Z
           \<and> (\<forall>s<D. \<forall>p. p * D + s < T \<longrightarrow> at3 Y 0 (p * D + s) 0 = at3 Z 0 (p * D + s) 0)
           \<and> right_pad (int T) (int D) X = Inr P
           \<and> sparse_kernel_causal_conv (int W) (int D) P H = Inr Y"
proof -
  define L where "L = T + (D - T mod D) mod D"
  define fy where "fy = (\<lambda>(b::nat) g (c::nat). \<Sum>k<W.
                  (if (W - 1 - k) * D \<le> g \<and> g - (W - 1 - k) * D < T
                   then at3 X 0 (g - (W - 1 - k) * D) 0 else 0) * at3 H k 0 0)"
  define fz where "fz = (\<lambda>(b::nat) g (c::nat). \<Sum>k<W.
                  (if (W - 1 - k) * D \<le> g then at3 X 0 (g - (W - 1 - k) * D) 0 else 0)
                  * at3 H k 0 0)"
  define P where "P = tabulate3 1 L 1 (\<lambda>b t c. if t < T then at3 X b t c else 0)"
  have TL: "T \<le> L" by (simp add: L_def)
  have a: "dilated_causal_conv (int T) (int W) (int D) X H = Inr (tabulate3 1 L 1 fy)"
    unfolding fy_def L_def using assms by (rule dilated_causal_conv_row)
  have b: "sparse_kernel_causal_conv (int W) (int D) X H = Inr (tabulate3 1 T 1 fz)"
    unfolding fz_def using assms by (rule sparse_kernel_causal_conv_row)
  have c: "\<forall>s<D. \<forall>p. p * D + s < T \<longrightarrow>
             at3 (tabulate3 1 L 1 fy) 0 (p * D + s) 0 = at3 (tabulate3 1 T 1 fz) 0 (p * D + s) 0"
  proof (intro allI impI)
    fix s p assume "s < D" and g: "p * D + s < T"
    have "fy 0 (p * D + s) 0 = fz 0 (p * D + s) 0"
      unfolding fy_def fz_def
    proof (rule sum.cong[OF refl])
      fix k
      have "p * D + s - (W - 1 - k) * D < T" using g by simp
      then show "(if (W - 1 - k) * D \<le> p * D + s \<and> p * D + s - (W - 1 - k) * D < T
                   then at3 X 0 (p * D + s - (W - 1 - k) * D) 0 else 0) * at3 H k 0 0 =
             (if (W - 1 - k) * D \<le> p * D + s then at3 X 0 (p * D + s - (W - 1 - k) * D) 0 else 0)
                  * at3 H k 0 0"
        by simp
    qed
    then show "at3 (tabulate3 1 L 1 fy) 0 (p * D + s) 0 = at3 (tabulate3 1 T 1 fz) 0 (p * D + s) 0"
      using g TL by (simp add: at3_tabulate3)
  qed
  have d: "right_pad (int T) (int D) X = Inr P"
    unfolding P_def L_def using assms(1,4) by (rule right_pad_nat)
  have "sparse_kernel_causal_conv (int W) (int D) P H =
         Inr (tabulate3 1 L 1
               (\<lambda>b g c. \<Sum>k<W.
                  (if (W - 1 - k) * D \<le> g then at3 P 0 (g - (W - 1 - k) * D) 0 else 0)
                  * at3 H k 0 0))"
    using _ assms(2,3,4) by (rule sparse_kernel_causal_conv_row) (use assms(5) in \<open>simp_all add: P_def L_def\<close>)
  also have "tabulate3 1 L 1
               (\<lambda>b g c. \<Sum>k<W.
                  (if (W - 1 - k) * D \<le> g then at3 P 0 (g - (W - 1 - k) * D) 0 else 0)
                  * at3 H k 0 0) = tabulate3 1 L 1 fy"
    unfolding fy_def
  proof (rule tabulate3_cong, rule sum.cong[OF refl])
    fix b g c k :: nat
    assume g: "g < L"
    then have "g - (W - 1 - k) * D < L" by simp
    then have "at3 P 0 (g - (W - 1 - k) * D) 0 =
               (if g - (W - 1 - k) * D < T then at3 X 0 (g - (W - 1 - k) * D) 0 else 0)"
      unfolding P_def by (simp add: at3_tabulate3)
    then show "(if (W - 1 - k) * D \<le> g then at3 P 0 (g - (W - 1 - k) * D) 0 else 0) * at3 H k 0 0 =
               (if (W - 1 - k) * D \<le> g \<and> g - (W - 1 - k) * D < T
                   then at3 X 0 (g - (W - 1 - k) * D) 0 else 0) * at3 H k 0 0"
      by simp
  qed
  finally have e: "sparse_kernel_causal_conv (int W) (int D) P H = Inr (tabulate3 1 L 1 fy)" .
  from a b c d e show ?thesis by blast
qed

theorem polyphase_equals_sparse_kernel_witness:
  "shape \<lparr>shape = [1, 7, 1], elems = [0, 1, 2, 3, 4, 5, 6 :: real]\<rparr> = [1, 7, 1]
   \<and> shape \<lparr>shape = [3, 1, 1], elems = [1, 1, 1 :: real]\<rparr> = [3, 1, 1]
   \<and> (0 :: nat) < 3 \<and> (0 :: nat) < 2 \<and> (0 :: nat) < 7
   \<and> (\<exists>Y Z. dilated_causal_conv 7 3 2 \<lparr>shape = [1, 7, 1], elems = [0, 1, 2, 3, 4, 5, 6 :: real]\<rparr>
              \<lparr>shape = [3, 1, 1], elems = [1, 1, 1]\<rparr> = Inr Y
          \<and> sparse_kernel_causal_conv 3 2 \<lparr>shape = [1, 7, 1], elems = [0, 1, 2, 3, 4, 5, 6 :: real]\<rparr>
              \<lparr>shape = [3, 1, 1], elems = [1, 1, 1]\<rparr> = Inr Z
          \<and> at3 Y 0 5 0 = at3 Z 0 5 0 \<and> at3 Z 0 5 0 = 9)"
proof -
  let ?X = "\<lparr>shape = [1, 7, 1], elems = [0, 1, 2, 3, 4, 5, 6 :: real]\<rparr>"
  let ?H = "\<lparr>shape = [3, 1, 1], elems = [1, 1, 1 :: real]\<rparr>"
  have h1: "shape ?X = [1, 7, 1]" by simp
  have h2: "shape ?H = [3, 1, 1]" by simp
  have h3: "(0 :: nat) < 3" by simp
  have h4: "(0 :: nat) < 2" by simp
  have h5: "(0 :: nat) < 7" by simp
  from polyphase_equals_sparse_kernel[OF h1 h2 h3 h4 h5]
  obtain Y Z where Y: "dilated_causal_conv (int 7) (int 3) (int 2) ?X ?H = Inr Y"
    and Z: "sparse_kernel_causal_conv (int 3) (int 2) ?X ?H = Inr Z"
    and eq: "\<forall>s<2. \<forall>p. p * 2 + s < 7 \<longrightarrow> at3 Y 0 (p * 2 + s) 0 = at3 Z 0 (p * 2 + s) 0"
    by blast
  have eq5: "at3 Y 0 5 0 = at3 Z 0 5 0"
    using eq[rule_format, of 1 2] by simp
  have "sparse_kernel_causal_conv 3 2 ?X ?H =
        Inr \<lparr>shape = [1, 7, 1], elems = [0, 1, 2, 4, 6, 9, 12]\<rparr>"
    by code_simp
  with Z have "Z = \<lparr>shape = [1, 7, 1], elems = [0, 1, 2, 4, 6, 9, 12]\<rparr>" by simp
  then have "at3 Z 0 5 0 = 9" by (simp add: at3_def idx3_def)
  with Y Z eq5 show ?thesis by simp
qed

theorem polyphase_counterexample:
  "dilated_causal_conv 2 1 1 \<lparr>shape = [1, 2, 1], elems = [5, 7 :: real]\<rparr>
      \<lparr>shape = [1, 1, 2], elems = [1, 2]\<rparr>
     = Inr \<lparr>shape = [1, 4, 1], elems = [5, 10, 7, 14]\<rparr>
   \<and> sparse_kernel_causal_conv 1 1 \<lparr>shape = [1, 2, 1], elems = [5, 7 :: real]\<rparr>
      \<lparr>shape = [1, 1, 2], elems = [1, 2]\<rparr>
     = Inr \<lparr>shape = [1, 2, 2], elems = [5, 10, 7, 14]\<rparr>
   \<and> at3 \<lparr>shape = [1, 4, 1], elems = [5, 10, 7, 14 :: real]\<rparr> 0 1 0 = 10
   \<and> at3 \<lparr>shape = [1, 2, 2], elems = [5, 10, 7, 14 :: real]\<rparr> 0 1 0 = 7
   \<and> dilated_causal_conv 2 2 2 \<lparr>shape = [2, 2, 1], elems = [1, 2, 3, 4 :: real]\<rparr>
      \<lparr>shape = [2, 1, 1], elems = [1, 1]\<rparr>
     = Inr \<lparr>shape = [1, 4, 1], elems = [1, 2, 4, 6]\<rparr>
   \<and> sparse_kernel_causal_conv 2 2 \<lparr>shape = [2, 2, 1], elems = [1, 2, 3, 4 :: real]\<rparr>
      \<lparr>shape = [2, 1, 1], elems = [1, 1]\<rparr>
     = Inr \<lparr>shape = [2, 2, 1], elems = [1, 2, 3, 4]\<rparr>
   \<and> dilated_causal_conv 0 2 2 \<lparr>shape = [1, 0, 1], elems = [] :: real list\<rparr>
      \<lparr>shape = [2, 1, 1], elems = [1, 1]\<rparr>
     = Inl InvalidArgument"
proof (intro conjI)
  show "dilated_causal_conv 0 2 2 \<lparr>shape = [1, 0, 1], elems = [] :: real list\<rparr>
      \<lparr>shape = [2, 1, 1], elems = [1, 1]\<rparr>
     = Inl InvalidArgument"
    by code_simp
  show "dilated_causal_conv 2 1 1 \<lparr>shape = [1, 2, 1], elems = [5, 7 :: real]\<rparr>
      \<lparr>shape = [1, 1, 2], elems = [1, 2]\<rparr>
     = Inr \<lparr>shape = [1, 4, 1], elems = [5, 10, 7, 14]\<rparr>"
    by code_simp
  show "sparse_kernel_causal_conv 1 1 \<lparr>shape = [1, 2, 1], elems = [5, 7 :: real]\<rparr>
      \<lparr>shape = [1, 1, 2], elems = [1, 2]\<rparr>
     = Inr \<lparr>shape = [1, 2, 2], elems = [5, 10, 7, 14]\<rparr>"
    by code_simp
  show "at3 \<lparr>shape = [1, 4, 1], elems = [5, 10, 7, 14 :: real]\<rparr> 0 1 0 = 10"
    by (simp add: at3_def idx3_def)
  show "at3 \<lparr>shape = [1, 2, 2], elems = [5, 10, 7, 14 :: real]\<rparr> 0 1 0 = 7"
    by (simp add: at3_def idx3_def)
  show "dilated_causal_conv 2 2 2 \<lparr>shape = [2, 2, 1], elems = [1, 2, 3, 4 :: real]\<rparr>
      \<lparr>shape = [2, 1, 1], elems = [1, 1]\<rparr>
     = Inr \<lparr>shape = [1, 4, 1], elems = [1, 2, 4, 6]\<rparr>"
    by code_simp
  show "sparse_kernel_causal_conv 2 2 \<lparr>shape = [2, 2, 1], elems = [1, 2, 3, 4 :: real]\<rparr>
      \<lparr>shape = [2, 1, 1], elems = [1, 1]\<rparr>
     = Inr \<lparr>shape = [2, 2, 1], elems = [1, 2, 3, 4]\<rparr>"
    by code_simp
qed

section \<open>Causality\<close>






section \<open>Linearity\<close>

lemma same_shape_length:
  "same_shape X Y \<Longrightarrow> length (elems X) = length (elems Y)"
  by (simp add: same_shape_def wf_tensor_def)

lemma same_shape_add [simp]:
  "shape (tensor_add X Y) = shape X"
  by (simp add: tensor_add_def)

lemma same_shape_scale [simp]:
  "shape (tensor_scale a X) = shape X" "length (elems (tensor_scale a X)) = length (elems X)"
  by (simp_all add: tensor_scale_def)

lemma length_tensor_add:
  "same_shape X Y \<Longrightarrow> length (elems (tensor_add X Y)) = length (elems X)"
  by (simp add: tensor_add_def same_shape_length)

lemma at3_tensor_add:
  assumes "same_shape X Y" and "shape X = [B, T, C]" and "b < B" and "t < T" and "c < C"
  shows "at3 (tensor_add X Y) b t c = at3 X b t c + at3 Y b t c"
proof -
  have "idx3 T C b t c < length (elems X)"
    using assms idx3_less[of b B t T c C] by (simp add: same_shape_def wf_tensor_def)
  then have i: "idx3 T C b t c < length (elems X)" "idx3 T C b t c < length (elems Y)"
    using same_shape_length[OF assms(1)] by simp_all
  have Y: "shape Y = [B, T, C]" using assms(1,2) by (simp add: same_shape_def)
  have "at3 (tensor_add X Y) b t c = map2 (+) (elems X) (elems Y) ! idx3 T C b t c"
    by (simp add: at3_def tensor_add_def assms(2))
  also have "\<dots> = elems X ! idx3 T C b t c + elems Y ! idx3 T C b t c"
    using i by simp
  also have "\<dots> = at3 X b t c + at3 Y b t c"
    by (simp add: at3_def assms(2) Y)
  finally show ?thesis .
qed

lemma at3_tensor_scale:
  assumes "wf_tensor X" and "shape X = [B, T, C]" and "b < B" and "t < T" and "c < C"
  shows "at3 (tensor_scale a X) b t c = a * at3 X b t c"
proof -
  have "idx3 T C b t c < length (elems X)"
    using assms idx3_less[of b B t T c C] by (simp add: wf_tensor_def)
  then show ?thesis
    using assms(2) by (simp add: at3_def tensor_scale_def)
qed

lemma tensor_add_tabulate3:
  "tensor_add (tabulate3 B T C f) (tabulate3 B T C g) = tabulate3 B T C (\<lambda>b t c. f b t c + g b t c)"
  by (simp add: tensor_add_def tabulate3_def map2_map_map)

lemma tensor_scale_tabulate3:
  "tensor_scale a (tabulate3 B T C f) = tabulate3 B T C (\<lambda>b t c. a * f b t c)"
  by (simp add: tensor_scale_def tabulate3_def)

lemma same_shape_tabulate3 [simp]:
  "same_shape (tabulate3 B T C f) (tabulate3 B T C g)"
  by (simp add: same_shape_def)

lemma linear_opI:
  assumes "\<And>X Y e. same_shape X Y \<Longrightarrow> f X = Inl e \<Longrightarrow> f Y = Inl e"
    and "\<And>X Y e. same_shape X Y \<Longrightarrow> f X = Inl e \<Longrightarrow> f (tensor_add X Y) = Inl e"
    and "\<And>X a e. wf_tensor X \<Longrightarrow> f X = Inl e \<Longrightarrow> f (tensor_scale a X) = Inl e"
    and "\<And>X Y A. same_shape X Y \<Longrightarrow> f X = Inr A \<Longrightarrow>
           \<exists>B. f Y = Inr B \<and> same_shape A B \<and> f (tensor_add X Y) = Inr (tensor_add A B)"
    and "\<And>X a A. wf_tensor X \<Longrightarrow> f X = Inr A \<Longrightarrow> f (tensor_scale a X) = Inr (tensor_scale a A)"
  shows "linear_op f"
  unfolding linear_op_def
proof (intro allI impI)
  fix X Y :: "'a tensor" and a :: 'a
  assume s: "same_shape X Y"
  then have wf: "wf_tensor X" by (simp add: same_shape_def)
  show "case f X of
           Inl e \<Rightarrow> f Y = Inl e \<and> f (tensor_add X Y) = Inl e \<and> f (tensor_scale a X) = Inl e
         | Inr A \<Rightarrow> (\<exists>B. f Y = Inr B \<and> same_shape A B
                        \<and> f (tensor_add X Y) = Inr (tensor_add A B)
                        \<and> f (tensor_scale a X) = Inr (tensor_scale a A))"
  proof (cases "f X")
    case (Inl e)
    then show ?thesis using assms(1,2)[OF s Inl] assms(3)[OF wf Inl] by simp
  next
    case (Inr A)
    then show ?thesis using assms(4)[OF s Inr] assms(5)[OF wf Inr] by auto
  qed
qed

lemma linear_op_const: "linear_op (\<lambda>X. Inl e)"
  by (simp add: linear_op_def)

lemma linear_op_bind:
  assumes "linear_op f" and "linear_op g"
  shows "linear_op (\<lambda>X. bind_result (f X) g)"
  unfolding linear_op_def
proof (intro allI impI)
  fix X Y :: "'a tensor" and a :: 'a
  assume s: "same_shape X Y"
  from assms(1) s have f: "case f X of
           Inl e \<Rightarrow> f Y = Inl e \<and> f (tensor_add X Y) = Inl e \<and> f (tensor_scale a X) = Inl e
         | Inr A \<Rightarrow> (\<exists>B. f Y = Inr B \<and> same_shape A B
                        \<and> f (tensor_add X Y) = Inr (tensor_add A B)
                        \<and> f (tensor_scale a X) = Inr (tensor_scale a A))"
    unfolding linear_op_def by (elim allE impE) assumption
  show "case bind_result (f X) g of
           Inl e \<Rightarrow> bind_result (f Y) g = Inl e \<and> bind_result (f (tensor_add X Y)) g = Inl e
                    \<and> bind_result (f (tensor_scale a X)) g = Inl e
         | Inr A \<Rightarrow> (\<exists>B. bind_result (f Y) g = Inr B \<and> same_shape A B
                        \<and> bind_result (f (tensor_add X Y)) g = Inr (tensor_add A B)
                        \<and> bind_result (f (tensor_scale a X)) g = Inr (tensor_scale a A))"
  proof (cases "f X")
    case (Inl e)
    then show ?thesis using f by simp
  next
    case (Inr A)
    with f obtain B where B: "f Y = Inr B" "same_shape A B"
      "f (tensor_add X Y) = Inr (tensor_add A B)" "f (tensor_scale a X) = Inr (tensor_scale a A)"
      by auto
    from assms(2) B(2) have "case g A of
           Inl e \<Rightarrow> g B = Inl e \<and> g (tensor_add A B) = Inl e \<and> g (tensor_scale a A) = Inl e
         | Inr A' \<Rightarrow> (\<exists>B'. g B = Inr B' \<and> same_shape A' B'
                        \<and> g (tensor_add A B) = Inr (tensor_add A' B')
                        \<and> g (tensor_scale a A) = Inr (tensor_scale a A'))"
      unfolding linear_op_def by (elim allE impE) assumption
    then show ?thesis
      unfolding Inr B bind_result_Inr by (cases "g A") simp_all
  qed
qed

lemma linear_opD:
  assumes "linear_op f" and "same_shape X Y"
  shows "case f X of
           Inl e \<Rightarrow> f Y = Inl e \<and> f (tensor_add X Y) = Inl e \<and> f (tensor_scale a X) = Inl e
         | Inr A \<Rightarrow> (\<exists>B. f Y = Inr B \<and> same_shape A B
                        \<and> f (tensor_add X Y) = Inr (tensor_add A B)
                        \<and> f (tensor_scale a X) = Inr (tensor_scale a A))"
  using assms unfolding linear_op_def by blast

lemma linear_op_add:
  assumes "linear_op f" and "same_shape X Y"
  shows "f (tensor_add X Y) = add_result (f X) (f Y)"
proof (cases "f X")
  case (Inl e)
  with linear_opD[OF assms, of undefined] have "f Y = Inl e" "f (tensor_add X Y) = Inl e"
    by simp_all
  with Inl show ?thesis by (simp add: add_result_def)
next
  case (Inr A)
  with linear_opD[OF assms, of undefined] obtain B where
    "f Y = Inr B" "f (tensor_add X Y) = Inr (tensor_add A B)"
    by auto
  with Inr show ?thesis by (simp add: add_result_def)
qed

lemma linear_op_scale:
  assumes "linear_op f" and "wf_tensor X"
  shows "f (tensor_scale a X) = scale_result a (f X)"
proof -
  have s: "same_shape X X" using assms(2) by (simp add: same_shape_def)
  show ?thesis
  proof (cases "f X")
    case (Inl e)
    with linear_opD[OF assms(1) s, of a] have "f (tensor_scale a X) = Inl e"
      by simp
    with Inl show ?thesis by (simp add: scale_result_def)
  next
    case (Inr A)
    with linear_opD[OF assms(1) s, of a] have "f (tensor_scale a X) = Inr (tensor_scale a A)"
      by auto
    with Inr show ?thesis by (simp add: scale_result_def)
  qed
qed

lemma prod_list_infer:
  "prod_list (map (\<lambda>d. if d = - 1 then q else nat d) dims) =
   q ^ length (filter (\<lambda>d. d = - 1) dims) * prod_list (map nat (filter (\<lambda>d. d \<noteq> - 1) dims))"
  by (induction dims) simp_all

lemma tf_reshape_length_only:
  assumes "length (elems Z) = length (elems X)"
  shows "tf_reshape Z dims =
         (case tf_reshape X dims of Inl e \<Rightarrow> Inl e
          | Inr A \<Rightarrow> Inr \<lparr>shape = shape A, elems = elems Z\<rparr>)"
  using assms by (simp add: tf_reshape_def Let_def)

lemma wf_tf_reshape:
  assumes "tf_reshape X dims = Inr A"
  shows "wf_tensor A"
proof (cases "- 1 \<in> set dims")
  case True
  define known where "known = prod_list (map nat (filter (\<lambda>d. d \<noteq> - 1) dims))"
  define q where "q = length (elems X) div known"
  from True have "filter (\<lambda>d. d = - 1) dims \<noteq> []"
    by (simp add: filter_empty_conv)
  then have pos: "0 < length (filter (\<lambda>d. d = - 1) dims)" by simp
  have r: "tf_reshape X dims =
        (if (\<exists>d \<in> set dims. d < - 1) \<or> 1 < length (filter (\<lambda>d. d = - 1) dims)
         then Inl InvalidArgument
         else if known = 0 \<or> length (elems X) mod known \<noteq> 0 then Inl InvalidArgument
         else Inr \<lparr>shape = map (\<lambda>d. if d = - 1 then q else nat d) dims, elems = elems X\<rparr>)"
    using True by (simp add: tf_reshape_def Let_def known_def q_def)
  have c1: "\<not> 1 < length (filter (\<lambda>d. d = - 1) dims)"
    using assms unfolding r by (simp split: if_splits)
  have c2: "length (elems X) mod known = 0"
    using assms unfolding r by (simp split: if_splits)
  have A: "A = \<lparr>shape = map (\<lambda>d. if d = - 1 then q else nat d) dims, elems = elems X\<rparr>"
    using assms unfolding r by (simp split: if_splits)
  from pos c1 have one: "length (filter (\<lambda>d. d = - 1) dims) = 1" by linarith
  from c2 have "q * known = length (elems X)"
    by (simp add: q_def mod_eq_0_iff_dvd)
  then show ?thesis
    unfolding A wf_tensor_def by (simp add: prod_list_infer one known_def)
next
  case False
  then have id: "filter (\<lambda>d. d \<noteq> - 1) dims = dims"
    by (auto simp add: filter_id_conv)
  have r: "tf_reshape X dims =
        (if (\<exists>d \<in> set dims. d < - 1) \<or> 1 < length (filter (\<lambda>d. d = - 1) dims)
         then Inl InvalidArgument
         else if prod_list (map nat dims) \<noteq> length (elems X) then Inl InvalidArgument
         else Inr \<lparr>shape = map nat dims, elems = elems X\<rparr>)"
    using False by (simp add: tf_reshape_def Let_def id)
  have "prod_list (map nat dims) = length (elems X)"
    and "A = \<lparr>shape = map nat dims, elems = elems X\<rparr>"
    using assms unfolding r by (simp_all split: if_splits)
  then show ?thesis by (simp add: wf_tensor_def)
qed

lemma tf_reshape_elems:
  assumes "tf_reshape X dims = Inr A" and "length (elems Z) = length (elems X)"
  shows "tf_reshape Z dims = Inr \<lparr>shape = shape A, elems = elems Z\<rparr>"
  using tf_reshape_length_only[OF assms(2), of dims] assms(1) by simp

lemma tf_reshape_error:
  assumes "tf_reshape X dims = Inl e" and "length (elems Z) = length (elems X)"
  shows "tf_reshape Z dims = Inl e"
  using tf_reshape_length_only[OF assms(2), of dims] assms(1) by simp

lemma linear_op_tf_reshape: "linear_op (\<lambda>X. tf_reshape X dims)"
proof (rule linear_opI)
  fix X Y :: "'a tensor" and e
  assume s: "same_shape X Y" and e: "tf_reshape X dims = Inl e"
  show "tf_reshape Y dims = Inl e"
    using tf_reshape_error[OF e, of Y] same_shape_length[OF s] by simp
  show "tf_reshape (tensor_add X Y) dims = Inl e"
    using tf_reshape_error[OF e, of "tensor_add X Y"] length_tensor_add[OF s] by simp
next
  fix X :: "'a tensor" and a e
  assume e: "tf_reshape X dims = Inl e"
  show "tf_reshape (tensor_scale a X) dims = Inl e"
    using tf_reshape_error[OF e, of "tensor_scale a X"] by simp
next
  fix X Y A :: "'a tensor"
  assume s: "same_shape X Y" and A: "tf_reshape X dims = Inr A"
  have eA: "A = \<lparr>shape = shape A, elems = elems X\<rparr>"
    using tf_reshape_elems[OF A, of X] A by simp
  define B where "B = \<lparr>shape = shape A, elems = elems Y\<rparr>"
  have fy: "tf_reshape Y dims = Inr B"
    unfolding B_def using tf_reshape_elems[OF A, of Y] same_shape_length[OF s] by simp
  have "same_shape A B"
    using wf_tf_reshape[OF A] wf_tf_reshape[OF fy] by (simp add: same_shape_def B_def)
  moreover have "tf_reshape (tensor_add X Y) dims = Inr \<lparr>shape = shape A, elems = elems (tensor_add X Y)\<rparr>"
    using tf_reshape_elems[OF A, of "tensor_add X Y"] length_tensor_add[OF s] by simp
  moreover have "\<lparr>shape = shape A, elems = elems (tensor_add X Y)\<rparr> = tensor_add A B"
    unfolding B_def by (subst (2) eA) (simp add: tensor_add_def)
  ultimately show "\<exists>B. tf_reshape Y dims = Inr B \<and> same_shape A B
                      \<and> tf_reshape (tensor_add X Y) dims = Inr (tensor_add A B)"
    using fy by auto
next
  fix X A :: "'a tensor" and a
  assume A: "tf_reshape X dims = Inr A"
  have eA: "A = \<lparr>shape = shape A, elems = elems X\<rparr>"
    using tf_reshape_elems[OF A, of X] A by simp
  have "tf_reshape (tensor_scale a X) dims = Inr \<lparr>shape = shape A, elems = elems (tensor_scale a X)\<rparr>"
    using tf_reshape_elems[OF A, of "tensor_scale a X"] by simp
  moreover have "\<lparr>shape = shape A, elems = elems (tensor_scale a X)\<rparr> = tensor_scale a A"
    by (subst (2) eA) (simp add: tensor_scale_def)
  ultimately show "tf_reshape (tensor_scale a X) dims = Inr (tensor_scale a A)"
    by simp
qed

lemma linear_op_tabulate:
  fixes f :: "('a::semiring_0) tensor \<Rightarrow> 'a result"
  assumes good: "\<And>X B T C. shape X = [B, T, C] \<Longrightarrow> ok B T C \<Longrightarrow>
                   f X = Inr (tabulate3 (B' B T C) (T' B T C) (C' B T C) (F X B T C))"
    and bad: "\<And>X. \<not> (\<exists>B T C. shape X = [B, T, C] \<and> ok B T C) \<Longrightarrow> f X = Inl InvalidArgument"
    and add: "\<And>X Y B T C b t c. same_shape X Y \<Longrightarrow> shape X = [B, T, C] \<Longrightarrow> ok B T C \<Longrightarrow>
                   b < B' B T C \<Longrightarrow> t < T' B T C \<Longrightarrow> c < C' B T C \<Longrightarrow>
                   F (tensor_add X Y) B T C b t c = F X B T C b t c + F Y B T C b t c"
    and scale: "\<And>X a B T C b t c. wf_tensor X \<Longrightarrow> shape X = [B, T, C] \<Longrightarrow> ok B T C \<Longrightarrow>
                   b < B' B T C \<Longrightarrow> t < T' B T C \<Longrightarrow> c < C' B T C \<Longrightarrow>
                   F (tensor_scale a X) B T C b t c = a * F X B T C b t c"
  shows "linear_op f"
proof (rule linear_opI)
  fix X Y :: "'a tensor" and e
  assume s: "same_shape X Y" and e: "f X = Inl e"
  have nok: "\<not> (\<exists>B T C. shape X = [B, T, C] \<and> ok B T C)"
    using e good by fastforce
  then have "e = InvalidArgument" using bad[of X] e by simp
  moreover have "shape Y = shape X" using s by (simp add: same_shape_def)
  ultimately show "f Y = Inl e" and "f (tensor_add X Y) = Inl e"
    using nok bad[of Y] bad[of "tensor_add X Y"] by simp_all
next
  fix X :: "'a tensor" and a e
  assume e: "f X = Inl e"
  have nok: "\<not> (\<exists>B T C. shape X = [B, T, C] \<and> ok B T C)"
    using e good by fastforce
  then have "e = InvalidArgument" using bad[of X] e by simp
  then show "f (tensor_scale a X) = Inl e"
    using nok bad[of "tensor_scale a X"] by simp
next
  fix X Y A :: "'a tensor"
  assume s: "same_shape X Y" and A: "f X = Inr A"
  have "\<exists>B T C. shape X = [B, T, C] \<and> ok B T C"
    using A bad[of X] by (cases "\<exists>B T C. shape X = [B, T, C] \<and> ok B T C") simp_all
  then obtain B T C where shp: "shape X = [B, T, C]" and ok: "ok B T C" by blast
  have shpY: "shape Y = [B, T, C]" using s shp by (simp add: same_shape_def)
  have a: "A = tabulate3 (B' B T C) (T' B T C) (C' B T C) (F X B T C)"
    using good[OF shp ok] A by simp
  have y: "f Y = Inr (tabulate3 (B' B T C) (T' B T C) (C' B T C) (F Y B T C))"
    using shpY ok by (rule good)
  have "f (tensor_add X Y) =
        Inr (tabulate3 (B' B T C) (T' B T C) (C' B T C) (F (tensor_add X Y) B T C))"
    using shp ok by (intro good) simp_all
  also have "tabulate3 (B' B T C) (T' B T C) (C' B T C) (F (tensor_add X Y) B T C) =
             tabulate3 (B' B T C) (T' B T C) (C' B T C)
               (\<lambda>b t c. F X B T C b t c + F Y B T C b t c)"
    using s shp ok by (intro tabulate3_cong add)
  also have "\<dots> = tensor_add A (tabulate3 (B' B T C) (T' B T C) (C' B T C) (F Y B T C))"
    unfolding a by (rule tensor_add_tabulate3[symmetric])
  finally show "\<exists>B. f Y = Inr B \<and> same_shape A B \<and> f (tensor_add X Y) = Inr (tensor_add A B)"
    using y a by auto
next
  fix X A :: "'a tensor" and a
  assume wf: "wf_tensor X" and A: "f X = Inr A"
  have "\<exists>B T C. shape X = [B, T, C] \<and> ok B T C"
    using A bad[of X] by (cases "\<exists>B T C. shape X = [B, T, C] \<and> ok B T C") simp_all
  then obtain B T C where shp: "shape X = [B, T, C]" and ok: "ok B T C" by blast
  have a: "A = tabulate3 (B' B T C) (T' B T C) (C' B T C) (F X B T C)"
    using good[OF shp ok] A by simp
  have "f (tensor_scale a X) =
        Inr (tabulate3 (B' B T C) (T' B T C) (C' B T C) (F (tensor_scale a X) B T C))"
    using shp ok by (intro good) simp_all
  also have "tabulate3 (B' B T C) (T' B T C) (C' B T C) (F (tensor_scale a X) B T C) =
             tabulate3 (B' B T C) (T' B T C) (C' B T C) (\<lambda>b t c. a * F X B T C b t c)"
    using wf shp ok by (intro tabulate3_cong scale)
  also have "\<dots> = tensor_scale a A"
    unfolding a by (rule tensor_scale_tabulate3[symmetric])
  finally show "f (tensor_scale a X) = Inr (tensor_scale a A)" .
qed

lemma linear_op_tf_pad: "linear_op (\<lambda>X. tf_pad X l r)"
proof (rule linear_op_tabulate[where ok = "\<lambda>B T C. \<not> (l < 0 \<or> r < 0)"
      and B' = "\<lambda>B T C. B" and T' = "\<lambda>B T C. nat l + T + nat r" and C' = "\<lambda>B T C. C"
      and F = "\<lambda>X B T C b t c. if nat l \<le> t \<and> t < nat l + T then at3 X b (t - nat l) c else 0"])
  fix X :: "'a tensor" and B T C
  assume "shape X = [B, T, C]" and "\<not> (l < 0 \<or> r < 0)"
  then show "tf_pad X l r = Inr (tabulate3 B (nat l + T + nat r) C
      (\<lambda>b t c. if nat l \<le> t \<and> t < nat l + T then at3 X b (t - nat l) c else 0))"
    by (simp add: tf_pad_def)
next
  fix X :: "'a tensor"
  assume "\<not> (\<exists>B T C. shape X = [B, T, C] \<and> \<not> (l < 0 \<or> r < 0))"
  then show "tf_pad X l r = Inl InvalidArgument"
    by (simp add: tf_pad_def split: list.splits) blast
next
  fix X Y :: "'a tensor" and B T C b t c
  assume s: "same_shape X Y" and shp: "shape X = [B, T, C]" and b: "b < B" and c: "c < C"
  show "(if nat l \<le> t \<and> t < nat l + T then at3 (tensor_add X Y) b (t - nat l) c else 0) =
        (if nat l \<le> t \<and> t < nat l + T then at3 X b (t - nat l) c else 0) +
        (if nat l \<le> t \<and> t < nat l + T then at3 Y b (t - nat l) c else 0)"
  proof (cases "nat l \<le> t \<and> t < nat l + T")
    case True
    then have "t - nat l < T" by linarith
    then show ?thesis
      unfolding if_P[OF True] using at3_tensor_add[OF s shp b _ c] by simp
  next
    case False
    show ?thesis unfolding if_not_P[OF False] by simp
  qed
next
  fix X :: "'a tensor" and a B T C b t c
  assume wf: "wf_tensor X" and shp: "shape X = [B, T, C]" and b: "b < B" and c: "c < C"
  show "(if nat l \<le> t \<and> t < nat l + T then at3 (tensor_scale a X) b (t - nat l) c else 0) =
        a * (if nat l \<le> t \<and> t < nat l + T then at3 X b (t - nat l) c else 0)"
  proof (cases "nat l \<le> t \<and> t < nat l + T")
    case True
    then have "t - nat l < T" by linarith
    then show ?thesis
      unfolding if_P[OF True] using at3_tensor_scale[OF wf shp b _ c] by simp
  next
    case False
    show ?thesis unfolding if_not_P[OF False] by simp
  qed
qed

lemma linear_op_tf_transpose: "linear_op tf_transpose"
proof (rule linear_op_tabulate[where ok = "\<lambda>B T C. True"
      and B' = "\<lambda>B T C. T" and T' = "\<lambda>B T C. B" and C' = "\<lambda>B T C. C"
      and F = "\<lambda>X B T C j i c. at3 X i j c"])
  fix X :: "'a tensor" and B T C
  assume "shape X = [B, T, C]"
  then show "tf_transpose X = Inr (tabulate3 T B C (\<lambda>j i c. at3 X i j c))"
    by (simp add: tf_transpose_def)
next
  fix X :: "'a tensor"
  assume "\<not> (\<exists>B T C. shape X = [B, T, C] \<and> True)"
  then show "tf_transpose X = Inl InvalidArgument"
    by (simp add: tf_transpose_def split: list.splits)
next
  fix X Y :: "'a tensor" and B T C b t c
  assume "same_shape X Y" and "shape X = [B, T, C]" and "b < T" and "t < B" and "c < C"
  then show "at3 (tensor_add X Y) t b c = at3 X t b c + at3 Y t b c"
    by (simp add: at3_tensor_add)
next
  fix X :: "'a tensor" and a B T C b t c
  assume "wf_tensor X" and "shape X = [B, T, C]" and "b < T" and "t < B" and "c < C"
  then show "at3 (tensor_scale a X) t b c = a * at3 X t b c"
    by (simp add: at3_tensor_scale)
qed

lemma dot_add:
  fixes xs ys zs :: "('a::semiring_0) list"
  assumes "length xs = length ys"
  shows "dot (map2 (+) xs ys) zs = dot xs zs + dot ys zs"
  using assms
proof (induction xs ys arbitrary: zs rule: list_induct2)
  case Nil
  then show ?case by (simp add: dot_def)
next
  case (Cons x xs y ys)
  have "sum_list (map2 (*) (map2 (+) xs ys) zs') =
        sum_list (map2 (*) xs zs') + sum_list (map2 (*) ys zs')" for zs'
    using Cons.IH[of zs'] by (simp add: dot_def)
  then show ?case
    by (cases zs) (simp_all add: dot_def distrib_right add.assoc add.left_commute)
qed

lemma dot_scale:
  fixes xs zs :: "('a::semiring_0) list"
  shows "dot (map ((*) a) xs) zs = a * dot xs zs"
proof (induction xs arbitrary: zs)
  case Nil
  then show ?case by (simp add: dot_def)
next
  case (Cons x xs)
  have "sum_list (map2 (*) (map ((*) a) xs) zs') = a * sum_list (map2 (*) xs zs')" for zs'
    using Cons.IH[of zs'] by (simp add: dot_def)
  then show ?case
    by (cases zs) (simp_all add: dot_def distrib_left mult.assoc)
qed

lemma patch_add:
  assumes "same_shape X Y"
  shows "patch (tensor_add X Y) W b t = map2 (+) (patch X W b t) (patch Y W b t)"
    and "length (patch X W b t) = length (patch Y W b t)"
  using assms same_shape_length[OF assms]
  by (simp_all add: patch_def tensor_add_def same_shape_def take_zip drop_zip take_map drop_map)

lemma patch_scale:
  "patch (tensor_scale a X) W b t = map ((*) a) (patch X W b t)"
  by (simp add: patch_def tensor_scale_def take_map drop_map)

lemma linear_op_tf_nn_conv1d: "linear_op (\<lambda>X. tf_nn_conv1d X H)"
proof (cases "\<exists>W Cin Cout. shape H = [W, Cin, Cout]")
  case False
  then have "tf_nn_conv1d X H = Inl InvalidArgument" for X :: "'a tensor"
    by (simp add: tf_nn_conv1d_def split: list.splits)
  then show ?thesis by (simp add: linear_op_const)
next
  case True
  then obtain W Cin Cout where H: "shape H = [W, Cin, Cout]" by blast
  show ?thesis
  proof (rule linear_op_tabulate[where ok = "\<lambda>B T C. \<not> (C \<noteq> Cin \<or> W = 0 \<or> T < W)"
      and B' = "\<lambda>B T C. B" and T' = "\<lambda>B T C. T - W + 1" and C' = "\<lambda>B T C. Cout"
      and F = "\<lambda>X B T C b t o'. dot (patch X W b t) (filter_column H o')"])
    fix X :: "'a tensor" and B T C
    assume "shape X = [B, T, C]" and "\<not> (C \<noteq> Cin \<or> W = 0 \<or> T < W)"
    then show "tf_nn_conv1d X H = Inr (tabulate3 B (T - W + 1) Cout
        (\<lambda>b t o'. dot (patch X W b t) (filter_column H o')))"
      using H by (simp add: tf_nn_conv1d_def)
  next
    fix X :: "'a tensor"
    assume "\<not> (\<exists>B T C. shape X = [B, T, C] \<and> \<not> (C \<noteq> Cin \<or> W = 0 \<or> T < W))"
    then show "tf_nn_conv1d X H = Inl InvalidArgument"
      using H by (simp add: tf_nn_conv1d_def split: list.splits) auto
  next
    fix X Y :: "'a tensor" and B T C b t c
    assume "same_shape X Y"
    then show "dot (patch (tensor_add X Y) W b t) (filter_column H c) =
          dot (patch X W b t) (filter_column H c) + dot (patch Y W b t) (filter_column H c)"
      by (simp add: patch_add dot_add)
  next
    fix X :: "'a tensor" and a B T C b t c
    show "dot (patch (tensor_scale a X) W b t) (filter_column H c) =
          a * dot (patch X W b t) (filter_column H c)"
      by (simp add: patch_scale dot_scale)
  qed
qed

lemma linear_op_right_pad: "linear_op (right_pad n d)"
proof (cases "pad_amount n d")
  case (Inl e)
  then have "right_pad n d = (\<lambda>X :: 'a tensor. Inl e)"
    by (intro ext) (simp add: right_pad_def)
  then show ?thesis by (simp add: linear_op_const)
next
  case (Inr amount)
  then have "right_pad n d = (\<lambda>X :: 'a tensor. tf_pad X 0 amount)"
    by (intro ext) (simp add: right_pad_def)
  then show ?thesis by (simp add: linear_op_tf_pad)
qed

lemma linear_op_subsample: "linear_op (subsample n d)"
proof -
  have "subsample n d = (\<lambda>X :: 'a tensor. bind_result (right_pad n d X) (\<lambda>padded.
     bind_result (tf_reshape padded [- 1, d, 1]) (\<lambda>reshaped.
     bind_result (tf_transpose reshaped) (\<lambda>transposed.
     tf_reshape transposed [d, - 1, 1]))))"
    by (intro ext) (simp add: subsample_def)
  moreover have "linear_op (\<lambda>X :: 'a tensor. bind_result (right_pad n d X) (\<lambda>padded.
     bind_result (tf_reshape padded [- 1, d, 1]) (\<lambda>reshaped.
     bind_result (tf_transpose reshaped) (\<lambda>transposed.
     tf_reshape transposed [d, - 1, 1]))))"
    by (intro linear_op_bind linear_op_right_pad linear_op_tf_reshape linear_op_tf_transpose)
  ultimately show ?thesis by simp
qed

lemma linear_op_undo_subsampling: "linear_op (undo_subsampling d)"
proof -
  have "undo_subsampling d = (\<lambda>Y :: 'a tensor.
     bind_result (tf_reshape Y [d, - 1, 1]) (\<lambda>prepared.
     bind_result (tf_transpose prepared) (\<lambda>transposed.
     tf_reshape transposed [1, - 1, 1])))"
    by (intro ext) (simp add: undo_subsampling_def)
  moreover have "linear_op (\<lambda>Y :: 'a tensor.
     bind_result (tf_reshape Y [d, - 1, 1]) (\<lambda>prepared.
     bind_result (tf_transpose prepared) (\<lambda>transposed.
     tf_reshape transposed [1, - 1, 1])))"
    by (intro linear_op_bind linear_op_tf_reshape linear_op_tf_transpose)
  ultimately show ?thesis by simp
qed

lemma linear_op_causal_conv: "linear_op (\<lambda>X. causal_conv w X H)"
  unfolding causal_conv_def
  by (intro linear_op_bind linear_op_tf_pad linear_op_tf_nn_conv1d)

lemma linear_op_dilated_causal_conv: "linear_op (\<lambda>X. dilated_causal_conv n w d X H)"
  unfolding dilated_causal_conv_def
  by (intro linear_op_bind linear_op_subsample linear_op_tf_pad linear_op_tf_nn_conv1d
      linear_op_undo_subsampling)

text \<open>
  With exact arithmetic the cells are linear. For two well-formed signals \<open>X\<close> and \<open>Y\<close>
  of one shape, any filter and any parameters, the valid convolution (cell 4), the causal
  convolution (cell 6) and the dilated causal convolution (cell 8) map \<open>X + Y\<close> to the sum
  of their results on \<open>X\<close> and on \<open>Y\<close>, and a scalar multiple \<open>a * X\<close> to the same multiple
  of their result on \<open>X\<close>; where a cell raises on \<open>X\<close> it raises alike on \<open>Y\<close>, on the sum
  and on the multiple.
\<close>

lemma exact_linearity:
  fixes X Y H :: "('a::semiring_0) tensor"
  assumes "wf_tensor X" and "wf_tensor Y" and "shape X = shape Y"
  shows "basic_conv (tensor_add X Y) H = add_result (basic_conv X H) (basic_conv Y H)
       \<and> basic_conv (tensor_scale a X) H = scale_result a (basic_conv X H)
       \<and> causal_conv w (tensor_add X Y) H = add_result (causal_conv w X H) (causal_conv w Y H)
       \<and> causal_conv w (tensor_scale a X) H = scale_result a (causal_conv w X H)
       \<and> dilated_causal_conv n w d (tensor_add X Y) H =
           add_result (dilated_causal_conv n w d X H) (dilated_causal_conv n w d Y H)
       \<and> dilated_causal_conv n w d (tensor_scale a X) H =
           scale_result a (dilated_causal_conv n w d X H)"
proof -
  have s: "same_shape X Y" using assms by (simp add: same_shape_def)
  have "linear_op (\<lambda>X. basic_conv X H)"
    unfolding basic_conv_def by (rule linear_op_tf_nn_conv1d)
  from linear_op_add[OF this s] linear_op_scale[OF this assms(1)]
  have a: "basic_conv (tensor_add X Y) H = add_result (basic_conv X H) (basic_conv Y H)"
    and b: "basic_conv (tensor_scale a X) H = scale_result a (basic_conv X H)"
    by simp_all
  from linear_op_add[OF linear_op_causal_conv s] linear_op_scale[OF linear_op_causal_conv assms(1)]
  have c: "causal_conv w (tensor_add X Y) H = add_result (causal_conv w X H) (causal_conv w Y H)"
    and d: "causal_conv w (tensor_scale a X) H = scale_result a (causal_conv w X H)"
    by simp_all
  from linear_op_add[OF linear_op_dilated_causal_conv s]
    linear_op_scale[OF linear_op_dilated_causal_conv assms(1)]
  have e: "dilated_causal_conv n w d (tensor_add X Y) H =
           add_result (dilated_causal_conv n w d X H) (dilated_causal_conv n w d Y H)"
    and f: "dilated_causal_conv n w d (tensor_scale a X) H =
           scale_result a (dilated_causal_conv n w d X H)"
    by simp_all
  from a b c d e f show ?thesis by simp
qed

section \<open>Linearity in single precision\<close>

text \<open>A number of magnitude below \<open>2 ^ 24\<close> has at most 24 binary digits and is not
  rounded.\<close>

lemma bit_length_le: "n < 2 ^ k \<Longrightarrow> bit_length n \<le> k"
proof (induction k arbitrary: n)
  case 0
  then have "n \<le> 0" by simp
  then show ?case by (simp add: bit_length.simps)
next
  case (Suc k)
  show ?case
  proof (cases "n \<le> 0")
    case True
    then show ?thesis by (simp add: bit_length.simps)
  next
    case False
    from Suc.prems have "n div 2 < 2 ^ k" by simp
    then have "bit_length (n div 2) \<le> k" by (rule Suc.IH)
    then show ?thesis using False by (subst bit_length.simps) simp
  qed
qed

lemma round32_exact:
  assumes "\<bar>z\<bar> < 2 ^ 24"
  shows "round32 z = z"
proof -
  have "bit_length \<bar>z\<bar> \<le> 24" using assms by (rule bit_length_le)
  then have "bit_length \<bar>z\<bar> - 24 = 0" by simp
  then show ?thesis by (simp add: round32_def Let_def mult_sgn_abs)
qed

lemma add32_exact: "\<bar>x + y\<bar> < 2 ^ 24 \<Longrightarrow> add32 x y = x + y"
  by (simp add: add32_def round32_exact)

lemma mul32_exact: "\<bar>x * y\<bar> < 2 ^ 24 \<Longrightarrow> mul32 x y = x * y"
  by (simp add: mul32_def round32_exact)

lemma abs_mult_le:
  fixes x y m k :: int
  assumes "\<bar>x\<bar> \<le> m" and "\<bar>y\<bar> \<le> k"
  shows "\<bar>x * y\<bar> \<le> m * k"
proof -
  have "\<bar>x\<bar> * \<bar>y\<bar> \<le> m * k"
    using assms by (intro mult_mono) simp_all
  then show ?thesis by (simp add: abs_mult)
qed

lemma foldl_dot32:
  fixes xs ys :: "int list"
  assumes "\<forall>x \<in> set xs. \<bar>x\<bar> \<le> m" and "\<forall>y \<in> set ys. \<bar>y\<bar> \<le> k"
    and "\<bar>s\<bar> + int (length (zip xs ys)) * (m * k) < 2 ^ 24"
    and "0 \<le> m" and "0 \<le> k"
  shows "foldl (\<lambda>s (x, y). add32 s (mul32 x y)) s (zip xs ys) = s + dot xs ys
       \<and> \<bar>s + dot xs ys\<bar> \<le> \<bar>s\<bar> + int (length (zip xs ys)) * (m * k)"
  using assms
proof (induction xs arbitrary: ys s)
  case Nil
  then show ?case by (simp add: dot_def)
next
  case (Cons x xs)
  show ?case
  proof (cases ys)
    case Nil
    then show ?thesis by (simp add: dot_def)
  next
    case (Cons y ys')
    define n where "n = int (length (zip xs ys'))"
    define c where "c = m * k"
    have c: "0 \<le> c" unfolding c_def using Cons.prems(4,5) by simp
    have n: "0 \<le> n * c" unfolding n_def using c by simp
    have xy: "\<bar>x * y\<bar> \<le> c"
      unfolding c_def using Cons.prems(1,2) Cons by (intro abs_mult_le) simp_all
    have "int (length (zip (x # xs) ys)) * (m * k) = c + n * c"
      unfolding Cons n_def c_def by (simp add: algebra_simps)
    with Cons.prems(3) have b: "\<bar>s\<bar> + c + n * c < 2 ^ 24" by simp
    have "\<bar>x * y\<bar> < 2 ^ 24" using xy b n by linarith
    then have p: "mul32 x y = x * y" by (rule mul32_exact)
    have sxy: "\<bar>s + x * y\<bar> \<le> \<bar>s\<bar> + c" using xy by linarith
    then have "\<bar>s + x * y\<bar> < 2 ^ 24" using b n by linarith
    then have a: "add32 s (x * y) = s + x * y" by (rule add32_exact)
    have "foldl (\<lambda>s (x, y). add32 s (mul32 x y)) (s + x * y) (zip xs ys') = (s + x * y) + dot xs ys'
       \<and> \<bar>(s + x * y) + dot xs ys'\<bar> \<le> \<bar>s + x * y\<bar> + int (length (zip xs ys')) * (m * k)"
    proof (rule Cons.IH)
      show "\<forall>x \<in> set xs. \<bar>x\<bar> \<le> m" using Cons.prems(1) by simp
      show "\<forall>y \<in> set ys'. \<bar>y\<bar> \<le> k" using Cons.prems(2) Cons by simp
      show "\<bar>s + x * y\<bar> + int (length (zip xs ys')) * (m * k) < 2 ^ 24"
        using sxy b unfolding n_def c_def by linarith
    qed (use Cons.prems(4,5) in simp_all)
    then have ih: "foldl (\<lambda>s (x, y). add32 s (mul32 x y)) (s + x * y) (zip xs ys') = (s + x * y) + dot xs ys'"
      and ihb: "\<bar>(s + x * y) + dot xs ys'\<bar> \<le> \<bar>s + x * y\<bar> + n * c"
      unfolding n_def c_def by simp_all
    have d: "dot (x # xs) ys = x * y + dot xs ys'"
      unfolding Cons by (simp add: dot_def)
    have "foldl (\<lambda>s (x, y). add32 s (mul32 x y)) s (zip (x # xs) ys) = s + dot (x # xs) ys"
      unfolding d unfolding Cons by (simp add: p a ih)
    moreover have "\<bar>s + dot (x # xs) ys\<bar> \<le> \<bar>s\<bar> + int (length (zip (x # xs) ys)) * (m * k)"
      unfolding d \<open>int (length (zip (x # xs) ys)) * (m * k) = c + n * c\<close>
      using ihb sxy by (simp add: add.assoc)
    ultimately show ?thesis by simp
  qed
qed

lemma dot32_exact:
  fixes xs ys :: "int list"
  assumes "\<forall>x \<in> set xs. \<bar>x\<bar> \<le> m" and "\<forall>y \<in> set ys. \<bar>y\<bar> \<le> k"
    and "length ys \<le> n" and "int n * (m * k) < 2 ^ 24"
    and "0 \<le> m" and "0 \<le> k"
  shows "dot32 xs ys = dot xs ys" and "\<bar>dot xs ys\<bar> \<le> int n * (m * k)"
proof -
  have c: "0 \<le> m * k" using assms(5,6) by simp
  have "length (zip xs ys) \<le> n" using assms(3) by simp
  then have "int (length (zip xs ys)) \<le> int n" by simp
  then have le: "int (length (zip xs ys)) * (m * k) \<le> int n * (m * k)"
    using c by (rule mult_right_mono)
  then have "\<bar>0 :: int\<bar> + int (length (zip xs ys)) * (m * k) < 2 ^ 24"
    using assms(4) by simp
  from foldl_dot32[OF assms(1,2) this assms(5,6)]
  have f: "foldl (\<lambda>s (x, y). add32 s (mul32 x y)) 0 (zip xs ys) = dot xs ys"
    and b: "\<bar>dot xs ys\<bar> \<le> int (length (zip xs ys)) * (m * k)"
    by simp_all
  from f show "dot32 xs ys = dot xs ys" by (simp add: dot32_def)
  from b le show "\<bar>dot xs ys\<bar> \<le> int n * (m * k)" by linarith
qed

text \<open>The bound on the samples goes through padding, reshaping and transposing, which
  only move samples and add zeros.\<close>

lemma elems_within_iff: "elems_within m X \<longleftrightarrow> (\<forall>x \<in> set (elems X). \<bar>x\<bar> \<le> m)"
  by (simp add: elems_within_def list_all_iff)

lemma elems_within_mono: "elems_within m X \<Longrightarrow> m \<le> m' \<Longrightarrow> elems_within m' X"
  unfolding elems_within_iff by fastforce

lemma elems_within_tabulate3:
  assumes "\<And>b t c. b < B \<Longrightarrow> t < T \<Longrightarrow> c < C \<Longrightarrow> \<bar>f b t c\<bar> \<le> m"
  shows "elems_within m (tabulate3 B T C f)"
  unfolding elems_within_iff
proof
  fix x assume "x \<in> set (elems (tabulate3 B T C f))"
  then obtain n where n: "n < B * T * C"
    and x: "x = f (n div (T * C)) (n div C mod T) (n mod C)"
    by (auto simp add: tabulate3_def)
  show "\<bar>x\<bar> \<le> m" unfolding x using split_index[OF n] by (intro assms)
qed

lemma at3_within:
  assumes "wf_tensor X" and "shape X = [B, T, C]" and "elems_within m X"
    and "b < B" and "t < T" and "c < C"
  shows "\<bar>at3 X b t c\<bar> \<le> m"
proof -
  have "idx3 T C b t c < length (elems X)"
    using assms(1,2) idx3_less[OF assms(4,5,6)] by (simp add: wf_tensor_def)
  then have "elems X ! idx3 T C b t c \<in> set (elems X)" by (rule nth_mem)
  then show ?thesis
    using assms(2,3) by (simp add: at3_def elems_within_iff)
qed

lemma bind_result_eq_Inr:
  assumes "bind_result r f = Inr A"
  obtains v where "r = Inr v" and "f v = Inr A"
  using assms by (cases r) simp_all

lemma elems_within_tf_pad:
  assumes "wf_tensor X" and "elems_within m X" and "0 \<le> m" and "tf_pad X l r = Inr A"
  shows "elems_within m A" and "wf_tensor A"
proof -
  from assms(4) obtain B T C where shp: "shape X = [B, T, C]"
    by (auto simp add: tf_pad_def split: list.splits)
  with assms(4) have A: "A = tabulate3 B (nat l + T + nat r) C
      (\<lambda>b t c. if nat l \<le> t \<and> t < nat l + T then at3 X b (t - nat l) c else 0)"
    by (simp add: tf_pad_def split: if_splits)
  show "wf_tensor A" unfolding A by simp
  show "elems_within m A"
    unfolding A
  proof (rule elems_within_tabulate3)
    fix b t c assume b: "b < B" and c: "c < C"
    show "\<bar>if nat l \<le> t \<and> t < nat l + T then at3 X b (t - nat l) c else 0\<bar> \<le> m"
    proof (cases "nat l \<le> t \<and> t < nat l + T")
      case True
      then have "t - nat l < T" by linarith
      then show ?thesis
        unfolding if_P[OF True] using assms(1) shp assms(2) b _ c by (intro at3_within)
    next
      case False
      show ?thesis unfolding if_not_P[OF False] using assms(3) by simp
    qed
  qed
qed

lemma elems_within_tf_reshape:
  assumes "elems_within m X" and "tf_reshape X dims = Inr A"
  shows "elems_within m A" and "wf_tensor A"
proof -
  have "A = \<lparr>shape = shape A, elems = elems X\<rparr>"
    using tf_reshape_elems[OF assms(2), of X] assms(2) by simp
  then have "elems A = elems X" by (metis tensor.select_convs(2))
  then show "elems_within m A" using assms(1) by (simp add: elems_within_def)
  show "wf_tensor A" using assms(2) by (rule wf_tf_reshape)
qed

lemma elems_within_tf_transpose:
  assumes "wf_tensor X" and "elems_within m X" and "tf_transpose X = Inr A"
  shows "elems_within m A" and "wf_tensor A"
proof -
  from assms(3) obtain B T C where shp: "shape X = [B, T, C]"
    by (auto simp add: tf_transpose_def split: list.splits)
  with assms(3) have A: "A = tabulate3 T B C (\<lambda>j i c. at3 X i j c)"
    by (simp add: tf_transpose_def)
  show "wf_tensor A" unfolding A by simp
  show "elems_within m A"
    unfolding A using assms(1) shp assms(2) by (intro elems_within_tabulate3 at3_within)
qed

lemma elems_within_subsample:
  assumes "wf_tensor X" and "elems_within m X" and "0 \<le> m" and "subsample n d X = Inr S"
  shows "elems_within m S" and "wf_tensor S"
proof -
  from assms(4) obtain P where P: "right_pad n d X = Inr P"
    and 1: "bind_result (tf_reshape P [- 1, d, 1]) (\<lambda>reshaped.
            bind_result (tf_transpose reshaped) (\<lambda>transposed.
            tf_reshape transposed [d, - 1, 1])) = Inr S"
    unfolding subsample_def by (rule bind_result_eq_Inr)
  from P obtain amount where "tf_pad X 0 amount = Inr P"
    unfolding right_pad_def by (rule bind_result_eq_Inr)
  from elems_within_tf_pad[OF assms(1,2,3) this]
  have p: "elems_within m P" "wf_tensor P" .
  from 1 obtain R where R: "tf_reshape P [- 1, d, 1] = Inr R"
    and 2: "bind_result (tf_transpose R) (\<lambda>transposed.
            tf_reshape transposed [d, - 1, 1]) = Inr S"
    by (rule bind_result_eq_Inr)
  from elems_within_tf_reshape[OF p(1) R]
  have r: "elems_within m R" "wf_tensor R" .
  from 2 obtain Tr where Tr: "tf_transpose R = Inr Tr"
    and 3: "tf_reshape Tr [d, - 1, 1] = Inr S"
    by (rule bind_result_eq_Inr)
  from elems_within_tf_transpose[OF r(2,1) Tr]
  have t: "elems_within m Tr" "wf_tensor Tr" .
  from elems_within_tf_reshape[OF t(1) 3]
  show "elems_within m S" and "wf_tensor S" .
qed

lemma elems_within_undo_subsampling:
  assumes "elems_within m Y" and "undo_subsampling d Y = Inr A"
  shows "elems_within m A"
proof -
  from assms(2) obtain R where R: "tf_reshape Y [d, - 1, 1] = Inr R"
    and 1: "bind_result (tf_transpose R) (\<lambda>transposed.
            tf_reshape transposed [1, - 1, 1]) = Inr A"
    unfolding undo_subsampling_def by (rule bind_result_eq_Inr)
  from elems_within_tf_reshape[OF assms(1) R]
  have r: "elems_within m R" "wf_tensor R" .
  from 1 obtain Tr where Tr: "tf_transpose R = Inr Tr"
    and 2: "tf_reshape Tr [1, - 1, 1] = Inr A"
    by (rule bind_result_eq_Inr)
  from elems_within_tf_transpose[OF r(2,1) Tr]
  have t: "elems_within m Tr" "wf_tensor Tr" .
  from elems_within_tf_reshape[OF t(1) 2]
  show "elems_within m A" by simp
qed

lemma set_patch: "set (patch X W b t) \<subseteq> set (elems X)"
  unfolding patch_def by (meson set_take_subset set_drop_subset subset_trans)

lemma filter_column_within:
  assumes "wf_tensor H" and "shape H = [W, Cin, Cout]" and "o' < Cout"
  shows "set (filter_column H o') \<subseteq> set (elems H)"
    and "length (filter_column H o') = W * Cin"
proof -
  have len: "length (elems H) = W * Cin * Cout"
    using assms(1,2) by (simp add: wf_tensor_def)
  show "length (filter_column H o') = W * Cin"
    using assms(2) by (simp add: filter_column_def)
  show "set (filter_column H o') \<subseteq> set (elems H)"
  proof
    fix x assume "x \<in> set (filter_column H o')"
    then obtain i where i: "i < W * Cin" and x: "x = elems H ! (i * Cout + o')"
      using assms(2) by (auto simp add: filter_column_def)
    have "i * Cout + o' < i * Cout + Cout" using assms(3) by simp
    also have "\<dots> = (i + 1) * Cout" by simp
    also have "\<dots> \<le> W * Cin * Cout" using i by (intro mult_le_mono1) simp
    finally have "i * Cout + o' < length (elems H)" using len by simp
    then show "x \<in> set (elems H)" unfolding x by (rule nth_mem)
  qed
qed

lemma tf_nn_conv1d_f32_exact:
  assumes H: "shape H = [W, Cin, Cout]" and wf: "wf_tensor H"
    and X: "elems_within m X" and K: "elems_within k H"
    and m: "0 \<le> m" and k: "0 \<le> k" and bound: "int (W * Cin) * (m * k) < 2 ^ 24"
  shows "tf_nn_conv1d_f32 X H = tf_nn_conv1d X H"
    and "tf_nn_conv1d X H = Inr A \<Longrightarrow> elems_within (int (W * Cin) * (m * k)) A"
proof -
  have key: "dot32 (patch X W' b t) (filter_column H o') = dot (patch X W' b t) (filter_column H o')
           \<and> \<bar>dot (patch X W' b t) (filter_column H o')\<bar> \<le> int (W * Cin) * (m * k)"
    if "o' < Cout" for W' b t o'
  proof -
    have 1: "\<forall>x \<in> set (patch X W' b t). \<bar>x\<bar> \<le> m"
      using X set_patch[of X W' b t] unfolding elems_within_iff by blast
    have 2: "\<forall>y \<in> set (filter_column H o'). \<bar>y\<bar> \<le> k"
      using K filter_column_within(1)[OF wf H that] unfolding elems_within_iff by blast
    have 3: "length (filter_column H o') \<le> W * Cin"
      using filter_column_within(2)[OF wf H that] by simp
    from dot32_exact[OF 1 2 3 bound m k] show ?thesis by simp
  qed
  show "tf_nn_conv1d_f32 X H = tf_nn_conv1d X H"
  proof (cases "\<exists>B T C. shape X = [B, T, C]")
    case False
    then show ?thesis
      by (simp add: tf_nn_conv1d_f32_def tf_nn_conv1d_def split: list.splits)
  next
    case True
    then obtain B T C where shp: "shape X = [B, T, C]" by blast
    have "tabulate3 B (T - W + 1) Cout (\<lambda>b t o'. dot32 (patch X W b t) (filter_column H o')) =
          tabulate3 B (T - W + 1) Cout (\<lambda>b t o'. dot (patch X W b t) (filter_column H o'))"
      by (rule tabulate3_cong) (simp add: key)
    then show ?thesis
      using H shp by (simp add: tf_nn_conv1d_f32_def tf_nn_conv1d_def)
  qed
  show "elems_within (int (W * Cin) * (m * k)) A" if A: "tf_nn_conv1d X H = Inr A"
  proof -
    from A obtain B T C where shp: "shape X = [B, T, C]"
      by (auto simp add: tf_nn_conv1d_def split: list.splits)
    with A H have "A = tabulate3 B (T - W + 1) Cout
        (\<lambda>b t o'. dot (patch X W b t) (filter_column H o'))"
      by (simp add: tf_nn_conv1d_def split: if_splits)
    then show ?thesis
      using key by (simp add: elems_within_tabulate3)
  qed
qed

lemma causal_conv_f32_exact:
  assumes H: "shape H = [W, Cin, Cout]" and wf: "wf_tensor H"
    and wfX: "wf_tensor X" and X: "elems_within m X" and K: "elems_within k H"
    and m: "0 \<le> m" and k: "0 \<le> k" and bound: "int (W * Cin) * (m * k) < 2 ^ 24"
  shows "causal_conv_f32 w X H = causal_conv w X H"
    and "causal_conv w X H = Inr A \<Longrightarrow> elems_within (int (W * Cin) * (m * k)) A"
proof -
  show "causal_conv_f32 w X H = causal_conv w X H"
  proof (cases "tf_pad X (w - 1) 0")
    case (Inl e)
    then show ?thesis by (simp add: causal_conv_f32_def causal_conv_def)
  next
    case (Inr Xp)
    from elems_within_tf_pad(1)[OF wfX X m Inr]
    have "tf_nn_conv1d_f32 Xp H = tf_nn_conv1d Xp H"
      by (rule tf_nn_conv1d_f32_exact(1)[OF H wf _ K m k bound])
    then show ?thesis by (simp add: causal_conv_f32_def causal_conv_def Inr)
  qed
  show "elems_within (int (W * Cin) * (m * k)) A" if "causal_conv w X H = Inr A"
  proof -
    from that obtain Xp where p: "tf_pad X (w - 1) 0 = Inr Xp" and c: "tf_nn_conv1d Xp H = Inr A"
      unfolding causal_conv_def by (rule bind_result_eq_Inr)
    from elems_within_tf_pad(1)[OF wfX X m p] c
    show ?thesis by (rule tf_nn_conv1d_f32_exact(2)[OF H wf _ K m k bound])
  qed
qed

lemma dilated_causal_conv_f32_exact:
  assumes H: "shape H = [W, Cin, Cout]" and wf: "wf_tensor H"
    and wfX: "wf_tensor X" and X: "elems_within m X" and K: "elems_within k H"
    and m: "0 \<le> m" and k: "0 \<le> k" and bound: "int (W * Cin) * (m * k) < 2 ^ 24"
  shows "dilated_causal_conv_f32 n w d X H = dilated_causal_conv n w d X H"
    and "dilated_causal_conv n w d X H = Inr A \<Longrightarrow> elems_within (int (W * Cin) * (m * k)) A"
proof -
  show "dilated_causal_conv_f32 n w d X H = dilated_causal_conv n w d X H"
  proof (cases "subsample n d X")
    case (Inl e)
    then show ?thesis by (simp add: dilated_causal_conv_f32_def dilated_causal_conv_def)
  next
    case S: (Inr S)
    from elems_within_subsample[OF wfX X m S]
    have s: "elems_within m S" "wf_tensor S" .
    show ?thesis
    proof (cases "tf_pad S (w - 1) 0")
      case (Inl e)
      then show ?thesis by (simp add: dilated_causal_conv_f32_def dilated_causal_conv_def S)
    next
      case (Inr Sp)
      from elems_within_tf_pad(1)[OF s(2,1) m Inr]
      have "tf_nn_conv1d_f32 Sp H = tf_nn_conv1d Sp H"
        by (rule tf_nn_conv1d_f32_exact(1)[OF H wf _ K m k bound])
      then show ?thesis by (simp add: dilated_causal_conv_f32_def dilated_causal_conv_def S Inr)
    qed
  qed
  show "elems_within (int (W * Cin) * (m * k)) A" if "dilated_causal_conv n w d X H = Inr A"
  proof -
    from that obtain S where S: "subsample n d X = Inr S"
      and 1: "bind_result (tf_pad S (w - 1) 0) (\<lambda>X_pad.
              bind_result (tf_nn_conv1d X_pad H) (\<lambda>Y. undo_subsampling d Y)) = Inr A"
      unfolding dilated_causal_conv_def by (rule bind_result_eq_Inr)
    from elems_within_subsample[OF wfX X m S]
    have s: "elems_within m S" "wf_tensor S" .
    from 1 obtain Sp where p: "tf_pad S (w - 1) 0 = Inr Sp"
      and 2: "bind_result (tf_nn_conv1d Sp H) (\<lambda>Y. undo_subsampling d Y) = Inr A"
      by (rule bind_result_eq_Inr)
    from 2 obtain Yc where c: "tf_nn_conv1d Sp H = Inr Yc" and u: "undo_subsampling d Yc = Inr A"
      by (rule bind_result_eq_Inr)
    from elems_within_tf_pad(1)[OF s(2,1) m p] c
    have "elems_within (int (W * Cin) * (m * k)) Yc"
      by (rule tf_nn_conv1d_f32_exact(2)[OF H wf _ K m k bound])
    then show ?thesis using u by (rule elems_within_undo_subsampling)
  qed
qed

lemma tensor_add_f32_exact:
  assumes "elems_within m X" and "elems_within m' Y" and "m + m' < 2 ^ 24"
  shows "tensor_add_f32 X Y = tensor_add X Y"
    and "elems_within (m + m') (tensor_add X Y)"
proof -
  have b: "\<bar>x + y\<bar> \<le> m + m'" if "(x, y) \<in> set (zip (elems X) (elems Y))" for x y
  proof -
    from that have "x \<in> set (elems X)" and "y \<in> set (elems Y)"
      by (auto dest: set_zip_leftD set_zip_rightD)
    then have "\<bar>x\<bar> \<le> m" and "\<bar>y\<bar> \<le> m'"
      using assms(1,2) unfolding elems_within_iff by blast+
    then show ?thesis by linarith
  qed
  have "map2 add32 (elems X) (elems Y) = map2 (+) (elems X) (elems Y)"
  proof (rule map_cong[OF refl])
    fix p assume p: "p \<in> set (zip (elems X) (elems Y))"
    obtain x y where xy: "p = (x, y)" by (cases p)
    from b[of x y] p xy have "\<bar>x + y\<bar> < 2 ^ 24" using assms(3) by simp
    then show "(case p of (x, y) \<Rightarrow> add32 x y) = (case p of (x, y) \<Rightarrow> x + y)"
      unfolding xy by (simp add: add32_exact)
  qed
  then show "tensor_add_f32 X Y = tensor_add X Y"
    by (simp add: tensor_add_f32_def tensor_add_def)
  show "elems_within (m + m') (tensor_add X Y)"
    unfolding elems_within_iff tensor_add_def using b by auto
qed

lemma tensor_scale_f32_exact:
  assumes "elems_within m X" and "\<bar>a\<bar> * m < 2 ^ 24"
  shows "tensor_scale_f32 a X = tensor_scale a X"
    and "elems_within (\<bar>a\<bar> * m) (tensor_scale a X)"
proof -
  have b: "\<bar>a * x\<bar> \<le> \<bar>a\<bar> * m" if "x \<in> set (elems X)" for x
  proof -
    from that have "\<bar>x\<bar> \<le> m" using assms(1) unfolding elems_within_iff by blast
    then have "\<bar>a\<bar> * \<bar>x\<bar> \<le> \<bar>a\<bar> * m" by (intro mult_left_mono) simp_all
    then show ?thesis by (simp add: abs_mult)
  qed
  have "map (mul32 a) (elems X) = map ((*) a) (elems X)"
  proof (rule map_cong[OF refl])
    fix x assume "x \<in> set (elems X)"
    from b[OF this] have "\<bar>a * x\<bar> < 2 ^ 24" using assms(2) by simp
    then show "mul32 a x = a * x" by (rule mul32_exact)
  qed
  then show "tensor_scale_f32 a X = tensor_scale a X"
    by (simp add: tensor_scale_f32_def tensor_scale_def)
  show "elems_within (\<bar>a\<bar> * m) (tensor_scale a X)"
    unfolding elems_within_iff tensor_scale_def using b by auto
qed

lemma add_result_f32_exact:
  assumes "\<And>A. r = Inr A \<Longrightarrow> elems_within c A" and "\<And>B. r' = Inr B \<Longrightarrow> elems_within c B"
    and "c + c < 2 ^ 24"
  shows "add_result_f32 r r' = add_result r r'"
proof (cases r)
  case (Inl e)
  then show ?thesis by (simp add: add_result_f32_def add_result_def)
next
  case A: (Inr A)
  show ?thesis
  proof (cases r')
    case (Inl e)
    then show ?thesis by (simp add: add_result_f32_def add_result_def A)
  next
    case (Inr B)
    from tensor_add_f32_exact(1)[OF assms(1)[OF A] assms(2)[OF Inr] assms(3)]
    show ?thesis by (simp add: add_result_f32_def add_result_def A Inr)
  qed
qed

lemma scale_result_f32_exact:
  assumes "\<And>A. r = Inr A \<Longrightarrow> elems_within c A" and "\<bar>a\<bar> * c < 2 ^ 24"
  shows "scale_result_f32 a r = scale_result a r"
proof (cases r)
  case (Inl e)
  then show ?thesis by (simp add: scale_result_f32_def scale_result_def)
next
  case (Inr A)
  from tensor_scale_f32_exact(1)[OF assms(1)[OF Inr] assms(2)]
  show ?thesis by (simp add: scale_result_f32_def scale_result_def Inr)
qed

lemma wf_tensor_add:
  assumes "wf_tensor X" and "wf_tensor Y" and "shape X = shape Y"
  shows "wf_tensor (tensor_add X Y)"
  using assms by (simp add: wf_tensor_def tensor_add_def)

lemma wf_tensor_scale: "wf_tensor X \<Longrightarrow> wf_tensor (tensor_scale a X)"
  by (simp add: wf_tensor_def tensor_scale_def)

lemma linear_f32_from_exact:
  fixes f f32 :: "int tensor \<Rightarrow> int result"
  assumes ex: "\<And>Z c. wf_tensor Z \<Longrightarrow> elems_within c Z \<Longrightarrow> 0 \<le> c \<Longrightarrow> N * (c * k) < 2 ^ 24 \<Longrightarrow>
                 f32 Z = f Z \<and> (\<forall>A. f Z = Inr A \<longrightarrow> elems_within (N * (c * k)) A)"
    and add: "f (tensor_add X Y) = add_result (f X) (f Y)"
    and scale: "f (tensor_scale a X) = scale_result a (f X)"
    and wfX: "wf_tensor X" and wfY: "wf_tensor Y" and shp: "shape X = shape Y"
    and X: "elems_within m X" and Y: "elems_within m Y"
    and m: "0 \<le> m" and k: "0 \<le> k" and N: "0 \<le> N" and s: "2 \<le> s" and a: "\<bar>a\<bar> \<le> s"
    and sm: "s * m < 2 ^ 24" and bound: "N * (s * m * k) < 2 ^ 24"
  shows "f32 (tensor_add_f32 X Y) = add_result_f32 (f32 X) (f32 Y)
       \<and> f32 (tensor_scale_f32 a X) = scale_result_f32 a (f32 X)"
proof -
  define c where "c = N * (m * k)"
  have mk: "0 \<le> m * k" using m k by simp
  have c0: "0 \<le> c" unfolding c_def using N mk by simp
  have sc: "s * c = N * (s * m * k)" by (simp add: c_def algebra_simps)
  have "2 * m \<le> s * m" using s m by (rule mult_right_mono)
  then have mm: "m + m \<le> s * m" by simp
  have scb: "s * c < 2 ^ 24" unfolding sc by (rule bound)
  have "2 * c \<le> s * c" using s c0 by (rule mult_right_mono)
  then have cc: "c + c < 2 ^ 24" using scb by linarith
  have "1 * c \<le> s * c" using s c0 by (intro mult_right_mono) simp_all
  then have "c < 2 ^ 24" using scb by linarith
  then have c: "N * (m * k) < 2 ^ 24" unfolding c_def .
  have am: "\<bar>a\<bar> * m \<le> s * m" using a m by (rule mult_right_mono)
  have "\<bar>a\<bar> * c \<le> s * c" using a c0 by (rule mult_right_mono)
  then have ac: "\<bar>a\<bar> * c < 2 ^ 24" using scb by linarith
  have sm0: "0 \<le> s * m" using s m by simp
  have bound': "N * (s * m * k) < 2 ^ 24" by (rule bound)
  from ex[OF wfX X m c] have fx: "f32 X = f X"
    and ox: "\<And>A. f X = Inr A \<Longrightarrow> elems_within c A"
    by (simp_all add: c_def)
  from ex[OF wfY Y m c] have fy: "f32 Y = f Y"
    and oy: "\<And>A. f Y = Inr A \<Longrightarrow> elems_within c A"
    by (simp_all add: c_def)
  have "m + m < 2 ^ 24" using mm sm by simp
  from tensor_add_f32_exact[OF X Y this]
  have ta: "tensor_add_f32 X Y = tensor_add X Y"
    and wa: "elems_within (m + m) (tensor_add X Y)" .
  from wa mm have "elems_within (s * m) (tensor_add X Y)" by (rule elems_within_mono)
  from ex[OF wf_tensor_add[OF wfX wfY shp] this sm0 bound']
  have fa: "f32 (tensor_add X Y) = f (tensor_add X Y)" by simp
  have "\<bar>a\<bar> * m < 2 ^ 24" using am sm by simp
  from tensor_scale_f32_exact[OF X this]
  have ts: "tensor_scale_f32 a X = tensor_scale a X"
    and ws: "elems_within (\<bar>a\<bar> * m) (tensor_scale a X)" .
  from ws am have "elems_within (s * m) (tensor_scale a X)" by (rule elems_within_mono)
  from ex[OF wf_tensor_scale[OF wfX] this sm0 bound']
  have fs: "f32 (tensor_scale a X) = f (tensor_scale a X)" by simp
  have "f32 (tensor_add_f32 X Y) = add_result_f32 (f32 X) (f32 Y)"
    unfolding ta fa fx fy add using ox oy cc by (rule add_result_f32_exact[symmetric])
  moreover have "f32 (tensor_scale_f32 a X) = scale_result_f32 a (f32 X)"
    unfolding ts fs fx scale using ox ac by (rule scale_result_f32_exact[symmetric])
  ultimately show ?thesis by simp
qed

text \<open>
  Claim C10, as the notebook has it. The notebook computes in \<^verbatim>\<open>float32\<close>, which rounds
  sums and products to 24 significant bits. Let \<open>X\<close> and \<open>Y\<close> be well-formed signals of one
  shape with whole-number samples of magnitude at most \<open>m\<close>, let the filter, of shape
  \<open>[W, Cin, Cout]\<close>, have whole-number taps of magnitude at most \<open>k\<close>, and let the scalar
  \<open>a\<close> be a whole number with \<open>\<bar>a\<bar> \<le> s\<close> for some \<open>s \<ge> 2\<close>. If \<open>s * m < 2 ^ 24\<close> and
  \<open>W * Cin * s * m * k < 2 ^ 24\<close>, so that no sum and no product is rounded, then the valid
  convolution (cell 4), the causal convolution (cell 6) and the dilated causal convolution
  (cell 8), for any parameters, map \<open>X + Y\<close> to the sum of their results on \<open>X\<close> and on
  \<open>Y\<close>, and \<open>a * X\<close> to \<open>a\<close> times their result on \<open>X\<close>; where a cell raises on \<open>X\<close> it
  raises alike on \<open>Y\<close>, on the sum and on the multiple.
\<close>

theorem linearity_float32:
  fixes X Y H :: "int tensor"
  assumes "wf_tensor X" and "wf_tensor Y" and "shape X = shape Y"
    and "wf_tensor H" and "shape H = [W, Cin, Cout]"
    and "elems_within m X" and "elems_within m Y" and "elems_within k H"
    and "0 \<le> m" and "0 \<le> k" and "2 \<le> s" and "\<bar>a\<bar> \<le> s"
    and "s * m < 2 ^ 24" and "int (W * Cin) * (s * m * k) < 2 ^ 24"
  shows "basic_conv_f32 (tensor_add_f32 X Y) H =
           add_result_f32 (basic_conv_f32 X H) (basic_conv_f32 Y H)
       \<and> basic_conv_f32 (tensor_scale_f32 a X) H = scale_result_f32 a (basic_conv_f32 X H)
       \<and> causal_conv_f32 w (tensor_add_f32 X Y) H =
           add_result_f32 (causal_conv_f32 w X H) (causal_conv_f32 w Y H)
       \<and> causal_conv_f32 w (tensor_scale_f32 a X) H = scale_result_f32 a (causal_conv_f32 w X H)
       \<and> dilated_causal_conv_f32 n w d (tensor_add_f32 X Y) H =
           add_result_f32 (dilated_causal_conv_f32 n w d X H) (dilated_causal_conv_f32 n w d Y H)
       \<and> dilated_causal_conv_f32 n w d (tensor_scale_f32 a X) H =
           scale_result_f32 a (dilated_causal_conv_f32 n w d X H)"
proof -
  note ex = exact_linearity[OF assms(1,2,3), of H a w n d]
  have N: "0 \<le> int (W * Cin)" by simp
  have "basic_conv_f32 (tensor_add_f32 X Y) H =
           add_result_f32 (basic_conv_f32 X H) (basic_conv_f32 Y H)
       \<and> basic_conv_f32 (tensor_scale_f32 a X) H = scale_result_f32 a (basic_conv_f32 X H)"
  proof (rule linear_f32_from_exact[where f = "\<lambda>Z. basic_conv Z H" and N = "int (W * Cin)" and k = k
        and m = m and s = s])
    fix Z :: "int tensor" and c :: int
    assume "elems_within c Z" and "0 \<le> c" and "int (W * Cin) * (c * k) < 2 ^ 24"
    with tf_nn_conv1d_f32_exact[OF assms(5,4) _ assms(8) _ assms(10), of c Z]
    show "basic_conv_f32 Z H = basic_conv Z H
        \<and> (\<forall>A. basic_conv Z H = Inr A \<longrightarrow> elems_within (int (W * Cin) * (c * k)) A)"
      by (simp add: basic_conv_f32_def basic_conv_def)
  qed (use ex assms N in simp_all)
  moreover have "causal_conv_f32 w (tensor_add_f32 X Y) H =
           add_result_f32 (causal_conv_f32 w X H) (causal_conv_f32 w Y H)
       \<and> causal_conv_f32 w (tensor_scale_f32 a X) H = scale_result_f32 a (causal_conv_f32 w X H)"
  proof (rule linear_f32_from_exact[where f = "\<lambda>Z. causal_conv w Z H" and N = "int (W * Cin)" and k = k
        and m = m and s = s])
    fix Z :: "int tensor" and c :: int
    assume "wf_tensor Z" and "elems_within c Z" and "0 \<le> c" and "int (W * Cin) * (c * k) < 2 ^ 24"
    with causal_conv_f32_exact[OF assms(5,4) _ _ assms(8) _ assms(10), of Z c w]
    show "causal_conv_f32 w Z H = causal_conv w Z H
        \<and> (\<forall>A. causal_conv w Z H = Inr A \<longrightarrow> elems_within (int (W * Cin) * (c * k)) A)"
      by simp
  qed (use ex assms N in simp_all)
  moreover have "dilated_causal_conv_f32 n w d (tensor_add_f32 X Y) H =
           add_result_f32 (dilated_causal_conv_f32 n w d X H) (dilated_causal_conv_f32 n w d Y H)
       \<and> dilated_causal_conv_f32 n w d (tensor_scale_f32 a X) H =
           scale_result_f32 a (dilated_causal_conv_f32 n w d X H)"
  proof (rule linear_f32_from_exact[where f = "\<lambda>Z. dilated_causal_conv n w d Z H"
        and N = "int (W * Cin)" and k = k and m = m and s = s])
    fix Z :: "int tensor" and c :: int
    assume "wf_tensor Z" and "elems_within c Z" and "0 \<le> c" and "int (W * Cin) * (c * k) < 2 ^ 24"
    with dilated_causal_conv_f32_exact[OF assms(5,4) _ _ assms(8) _ assms(10), of Z c n w d]
    show "dilated_causal_conv_f32 n w d Z H = dilated_causal_conv n w d Z H
        \<and> (\<forall>A. dilated_causal_conv n w d Z H = Inr A \<longrightarrow> elems_within (int (W * Cin) * (c * k)) A)"
      by simp
  qed (use ex assms N in simp_all)
  ultimately show ?thesis by simp
qed

theorem linearity_float32_witness:
  "wf_tensor \<lparr>shape = [1, 4, 1], elems = [1, 2, 3, 4 :: int]\<rparr>
   \<and> wf_tensor \<lparr>shape = [1, 4, 1], elems = [10, 20, 30, 40 :: int]\<rparr>
   \<and> wf_tensor \<lparr>shape = [2, 1, 1], elems = [1, 1 :: int]\<rparr>
   \<and> elems_within 40 \<lparr>shape = [1, 4, 1], elems = [1, 2, 3, 4]\<rparr>
   \<and> elems_within 40 \<lparr>shape = [1, 4, 1], elems = [10, 20, 30, 40]\<rparr>
   \<and> elems_within 1 \<lparr>shape = [2, 1, 1], elems = [1, 1]\<rparr>
   \<and> (2 :: int) \<le> 3 \<and> \<bar>3 :: int\<bar> \<le> 3 \<and> (3 :: int) * 40 < 2 ^ 24
   \<and> int (2 * 1) * (3 * 40 * 1) < 2 ^ 24
   \<and> dilated_causal_conv_f32 4 2 2
        (tensor_add_f32 \<lparr>shape = [1, 4, 1], elems = [1, 2, 3, 4]\<rparr>
                        \<lparr>shape = [1, 4, 1], elems = [10, 20, 30, 40]\<rparr>)
        \<lparr>shape = [2, 1, 1], elems = [1, 1]\<rparr>
      = add_result_f32
          (dilated_causal_conv_f32 4 2 2 \<lparr>shape = [1, 4, 1], elems = [1, 2, 3, 4]\<rparr>
             \<lparr>shape = [2, 1, 1], elems = [1, 1]\<rparr>)
          (dilated_causal_conv_f32 4 2 2 \<lparr>shape = [1, 4, 1], elems = [10, 20, 30, 40]\<rparr>
             \<lparr>shape = [2, 1, 1], elems = [1, 1]\<rparr>)
   \<and> dilated_causal_conv_f32 4 2 2
        (tensor_add_f32 \<lparr>shape = [1, 4, 1], elems = [1, 2, 3, 4]\<rparr>
                        \<lparr>shape = [1, 4, 1], elems = [10, 20, 30, 40]\<rparr>)
        \<lparr>shape = [2, 1, 1], elems = [1, 1]\<rparr>
      = Inr \<lparr>shape = [1, 4, 1], elems = [11, 22, 44, 66]\<rparr>
   \<and> basic_conv_f32 (tensor_scale_f32 3 \<lparr>shape = [1, 4, 1], elems = [1, 2, 3, 4]\<rparr>)
        \<lparr>shape = [2, 1, 1], elems = [1, 1]\<rparr>
      = scale_result_f32 3 (basic_conv_f32 \<lparr>shape = [1, 4, 1], elems = [1, 2, 3, 4]\<rparr>
        \<lparr>shape = [2, 1, 1], elems = [1, 1]\<rparr>)
   \<and> basic_conv_f32 (tensor_scale_f32 3 \<lparr>shape = [1, 4, 1], elems = [1, 2, 3, 4]\<rparr>)
        \<lparr>shape = [2, 1, 1], elems = [1, 1]\<rparr>
      = Inr \<lparr>shape = [1, 3, 1], elems = [9, 15, 21]\<rparr>"
proof -
  let ?X = "\<lparr>shape = [1, 4, 1], elems = [1, 2, 3, 4 :: int]\<rparr>"
  let ?Y = "\<lparr>shape = [1, 4, 1], elems = [10, 20, 30, 40 :: int]\<rparr>"
  let ?H = "\<lparr>shape = [2, 1, 1], elems = [1, 1 :: int]\<rparr>"
  have h1: "wf_tensor ?X" by (simp add: wf_tensor_def)
  have h2: "wf_tensor ?Y" by (simp add: wf_tensor_def)
  have h3: "shape ?X = shape ?Y" by simp
  have h4: "wf_tensor ?H" by (simp add: wf_tensor_def)
  have h5: "shape ?H = [2, 1, 1]" by simp
  have h6: "elems_within 40 ?X" by (simp add: elems_within_def)
  have h7: "elems_within 40 ?Y" by (simp add: elems_within_def)
  have h8: "elems_within 1 ?H" by (simp add: elems_within_def)
  have h9: "(0 :: int) \<le> 40" by simp
  have h10: "(0 :: int) \<le> 1" by simp
  have h11: "(2 :: int) \<le> 3" by simp
  have h12: "\<bar>3 :: int\<bar> \<le> 3" by simp
  have h13: "(3 :: int) * 40 < 2 ^ 24" by simp
  have h14: "int (2 * 1) * (3 * 40 * 1) < 2 ^ 24" by simp
  note l = linearity_float32[OF h1 h2 h3 h4 h5 h6 h7 h8 h9 h10 h11 h12 h13 h14, of 2 4 2]
  have "dilated_causal_conv_f32 4 2 2 (tensor_add_f32 ?X ?Y) ?H
      = Inr \<lparr>shape = [1, 4, 1], elems = [11, 22, 44, 66]\<rparr>"
    by code_simp
  moreover have "basic_conv_f32 (tensor_scale_f32 3 ?X) ?H
      = Inr \<lparr>shape = [1, 3, 1], elems = [9, 15, 21]\<rparr>"
    by code_simp
  ultimately show ?thesis using l h1 h2 h4 h6 h7 h8 h14 by simp
qed

text \<open>
  Without the bound the claim fails, for \<open>2 ^ 24 + 1\<close> is not a \<^verbatim>\<open>float32\<close> value and is
  rounded to \<open>2 ^ 24\<close>. Take \<open>x = [2 ^ 24, 1]\<close>, \<open>y = [0, 1]\<close> and the filter of ones of
  width 2. Cell 4 returns \<open>2 ^ 24 + 2 = 16777218\<close> on \<open>x + y\<close>, but its results on \<open>x\<close> and
  on \<open>y\<close>, \<open>16777216\<close> and \<open>1\<close>, add up to \<open>16777216\<close>. It returns
  \<open>50331652\<close> on \<open>3 * x\<close>, but 3 times its result on \<open>x\<close> is \<open>50331648\<close>. Cell 8 with
  dilation 2 differs in the same way at time 2 on \<open>x = [2 ^ 24, 0, 1, 0]\<close> and
  \<open>y = [0, 0, 1, 0]\<close>.
\<close>

theorem linearity_counterexample:
  "basic_conv_f32
      (tensor_add_f32 \<lparr>shape = [1, 2, 1], elems = [16777216, 1]\<rparr>
                      \<lparr>shape = [1, 2, 1], elems = [0, 1]\<rparr>)
      \<lparr>shape = [2, 1, 1], elems = [1, 1]\<rparr>
     = Inr \<lparr>shape = [1, 1, 1], elems = [16777218]\<rparr>
   \<and> add_result_f32
      (basic_conv_f32 \<lparr>shape = [1, 2, 1], elems = [16777216, 1]\<rparr>
         \<lparr>shape = [2, 1, 1], elems = [1, 1]\<rparr>)
      (basic_conv_f32 \<lparr>shape = [1, 2, 1], elems = [0, 1]\<rparr>
         \<lparr>shape = [2, 1, 1], elems = [1, 1]\<rparr>)
     = Inr \<lparr>shape = [1, 1, 1], elems = [16777216]\<rparr>
   \<and> basic_conv_f32
      (tensor_scale_f32 3 \<lparr>shape = [1, 2, 1], elems = [16777216, 1]\<rparr>)
      \<lparr>shape = [2, 1, 1], elems = [1, 1]\<rparr>
     = Inr \<lparr>shape = [1, 1, 1], elems = [50331652]\<rparr>
   \<and> scale_result_f32 3
      (basic_conv_f32 \<lparr>shape = [1, 2, 1], elems = [16777216, 1]\<rparr>
         \<lparr>shape = [2, 1, 1], elems = [1, 1]\<rparr>)
     = Inr \<lparr>shape = [1, 1, 1], elems = [50331648]\<rparr>
   \<and> dilated_causal_conv_f32 4 2 2
      (tensor_add_f32 \<lparr>shape = [1, 4, 1], elems = [16777216, 0, 1, 0]\<rparr>
                      \<lparr>shape = [1, 4, 1], elems = [0, 0, 1, 0]\<rparr>)
      \<lparr>shape = [2, 1, 1], elems = [1, 1]\<rparr>
     = Inr \<lparr>shape = [1, 4, 1], elems = [16777216, 0, 16777218, 0]\<rparr>
   \<and> add_result_f32
      (dilated_causal_conv_f32 4 2 2 \<lparr>shape = [1, 4, 1], elems = [16777216, 0, 1, 0]\<rparr>
         \<lparr>shape = [2, 1, 1], elems = [1, 1]\<rparr>)
      (dilated_causal_conv_f32 4 2 2 \<lparr>shape = [1, 4, 1], elems = [0, 0, 1, 0]\<rparr>
         \<lparr>shape = [2, 1, 1], elems = [1, 1]\<rparr>)
     = Inr \<lparr>shape = [1, 4, 1], elems = [16777216, 0, 16777216, 0]\<rparr>"
proof (intro conjI)
  show "basic_conv_f32
      (tensor_add_f32 \<lparr>shape = [1, 2, 1], elems = [16777216, 1]\<rparr>
                      \<lparr>shape = [1, 2, 1], elems = [0, 1]\<rparr>)
      \<lparr>shape = [2, 1, 1], elems = [1, 1]\<rparr>
     = Inr \<lparr>shape = [1, 1, 1], elems = [16777218]\<rparr>"
    by code_simp
  show "add_result_f32
      (basic_conv_f32 \<lparr>shape = [1, 2, 1], elems = [16777216, 1]\<rparr>
         \<lparr>shape = [2, 1, 1], elems = [1, 1]\<rparr>)
      (basic_conv_f32 \<lparr>shape = [1, 2, 1], elems = [0, 1]\<rparr>
         \<lparr>shape = [2, 1, 1], elems = [1, 1]\<rparr>)
     = Inr \<lparr>shape = [1, 1, 1], elems = [16777216]\<rparr>"
    by code_simp
  show "basic_conv_f32
      (tensor_scale_f32 3 \<lparr>shape = [1, 2, 1], elems = [16777216, 1]\<rparr>)
      \<lparr>shape = [2, 1, 1], elems = [1, 1]\<rparr>
     = Inr \<lparr>shape = [1, 1, 1], elems = [50331652]\<rparr>"
    by code_simp
  show "scale_result_f32 3
      (basic_conv_f32 \<lparr>shape = [1, 2, 1], elems = [16777216, 1]\<rparr>
         \<lparr>shape = [2, 1, 1], elems = [1, 1]\<rparr>)
     = Inr \<lparr>shape = [1, 1, 1], elems = [50331648]\<rparr>"
    by code_simp
  show "dilated_causal_conv_f32 4 2 2
      (tensor_add_f32 \<lparr>shape = [1, 4, 1], elems = [16777216, 0, 1, 0]\<rparr>
                      \<lparr>shape = [1, 4, 1], elems = [0, 0, 1, 0]\<rparr>)
      \<lparr>shape = [2, 1, 1], elems = [1, 1]\<rparr>
     = Inr \<lparr>shape = [1, 4, 1], elems = [16777216, 0, 16777218, 0]\<rparr>"
    by code_simp
  show "add_result_f32
      (dilated_causal_conv_f32 4 2 2 \<lparr>shape = [1, 4, 1], elems = [16777216, 0, 1, 0]\<rparr>
         \<lparr>shape = [2, 1, 1], elems = [1, 1]\<rparr>)
      (dilated_causal_conv_f32 4 2 2 \<lparr>shape = [1, 4, 1], elems = [0, 0, 1, 0]\<rparr>
         \<lparr>shape = [2, 1, 1], elems = [1, 1]\<rparr>)
     = Inr \<lparr>shape = [1, 4, 1], elems = [16777216, 0, 16777216, 0]\<rparr>"
    by code_simp
qed

end
